theory Spec2Isabelle
  imports Main
begin

section \<open>Messages and events (types.ts)\<close>

text \<open>
  The agent loop of \<^verbatim>\<open>packages/agent/src/agent-loop.ts\<close> is embedded as pure functions
  over an explicit state. Opaque payloads (tool arguments, tool details, user content)
  are strings. Timestamps, usage records and the abort signal are left out: the loop only
  forwards them.
\<close>

type_synonym json = string

datatype tool_call = ToolCall (tc_id: string) (tc_name: string) (tc_arguments: json)

datatype content =
    TextContent string
  | ThinkingContent string
  | ImageContent string
  | ToolCallContent tool_call

datatype stop_reason = Stop | Length | ToolUse | ErrorStop | Aborted

datatype assistant_message =
  Assistant (am_content: "content list") (stopReason: stop_reason)

datatype tool_result_message =
  ToolResult (toolCallId: string) (toolName: string) (tr_content: "content list")
    (tr_details: json) (isError: bool)

datatype advisor_message =
  Advisor (advisorName: string) (adv_content: string) (adv_model: string)

text \<open>\<open>AgentMessage\<close>: the LLM messages, the advisor message, and app-defined extensions.\<close>

datatype message =
    UserMessage string
  | AssistantMessage assistant_message
  | ToolResultMessage tool_result_message
  | AdvisorMessage advisor_message
  | CustomMessage string

datatype role_tag = RoleUser | RoleAssistant | RoleToolResult | RoleAdvisor | RoleCustom

fun role :: "message \<Rightarrow> role_tag" where
  "role (UserMessage _) = RoleUser"
| "role (AssistantMessage _) = RoleAssistant"
| "role (ToolResultMessage _) = RoleToolResult"
| "role (AdvisorMessage _) = RoleAdvisor"
| "role (CustomMessage _) = RoleCustom"

text \<open>\<open>AgentToolResult\<close>: what a tool hands back.\<close>

datatype tool_output = ToolOutput (out_content: "content list") (out_details: json)

text \<open>The events of the streaming adapter (\<open>AssistantMessageEvent\<close>).\<close>

datatype delta_kind =
    text_start | text_delta | text_end
  | thinking_start | thinking_delta | thinking_end
  | toolcall_start | toolcall_delta | toolcall_end

datatype assistant_message_event =
    StartEvent assistant_message
  | DeltaEvent delta_kind assistant_message
  | DoneEvent
  | ErrorEvent

datatype event =
    agent_start
  | agent_end "message list"
  | turn_start
  | turn_end message "tool_result_message list"
  | message_start message
  | message_update message assistant_message_event
  | message_end message
  | tool_execution_start string string json
  | tool_execution_update string string json tool_output
  | tool_execution_end string string tool_output bool
  | advisor_start string string
  | advisor_event string event
  | advisor_end string string
  | advisor_error string string

section \<open>Thrown values and outcomes\<close>

text \<open>
  A JavaScript \<open>throw\<close> carries any value. The loop turns it into text with
  \<^verbatim>\<open>e instanceof Error ? e.message : String(e)\<close>.
\<close>

datatype thrown = ErrorObject string | NonError string

fun error_text :: "thrown \<Rightarrow> string" where
  "error_text (ErrorObject m) = m"
| "error_text (NonError s) = s"

text \<open>
  How an asynchronous task of the loop can fail to return: an exception nobody catches
  (the promise of the task rejects and its stream is never sealed), an \<open>await\<close> that never
  resumes, or the fuel of the model running out.
\<close>

datatype abort = Thrown thrown | Stalled | OutOfFuel

text \<open>What a call to a tool's \<open>execute\<close> can do.\<close>

datatype 'a settled = Resolved 'a | ThrewSync thrown | RejectedAsync thrown

section \<open>Configuration (types.ts)\<close>

text \<open>
  Every caller-supplied function may have effects and may throw. It is a function of the
  world \<open>'w\<close> (everything outside the loop: the model provider, the tools' resources, the
  user's queue, the clock) that returns the new world with its value or the thrown value.
\<close>

type_synonym ('w, 'a) callback = "'w \<Rightarrow> (thrown + 'a) \<times> 'w"

datatype model = Model (model_id: string) (provider: string)

datatype thinking_level = ThinkOff | ThinkMinimal | ThinkLow | ThinkMedium | ThinkHigh | ThinkXhigh

text \<open>
  \<open>AgentTool\<close>. The schema \<open>parameters\<close> is represented by what
  \<open>validateToolArguments\<close> (package pi-ai) makes of it: a check of the arguments that
  returns them validated or throws. \<open>execute\<close> returns the partial results it reported
  through \<open>onUpdate\<close> and how the call settled.
\<close>

record 'w agent_tool =
  tool_name :: string
  tool_label :: string
  tool_description :: string
  parameters :: "json \<Rightarrow> thrown + json"
  execute :: "string \<Rightarrow> json \<Rightarrow> 'w \<Rightarrow> (tool_output list \<times> tool_output settled) \<times> 'w"

text \<open>\<open>AdvisorTriggerParams\<close>, and the parameter of \<open>createContext\<close>.\<close>

record trigger_params =
  tp_messages :: "message list"
  tp_toolName :: string
  tp_toolArgs :: json
  tp_toolResult :: tool_result_message

record create_params = trigger_params +
  cp_systemPrompt :: string

datatype 'w advisor_config = AdvisorConfig
  (adv_name: string)
  (adv_model_of: model)
  (trigger: "trigger_params \<Rightarrow> ('w, bool) callback")
  (adv_tools: "'w agent_tool list option")
  (adv_advisors: "'w advisor_config list option")
  (createContext: "create_params \<Rightarrow> ('w, string \<times> message list) callback")
  (extractResult: "(message list \<Rightarrow> thrown + string) option")
  (adv_convertToLlm: "(message list \<Rightarrow> ('w, message list) callback) option")
  (adv_apiKey: "string option")
  (adv_getApiKey: "(string \<Rightarrow> ('w, string option) callback) option")
  (thinkingLevel: "thinking_level option")

record 'w agent_loop_config =
  model :: model
  convertToLlm :: "message list \<Rightarrow> ('w, message list) callback"
  transformContext :: "(message list \<Rightarrow> ('w, message list) callback) option"
  getApiKey :: "(string \<Rightarrow> ('w, string option) callback) option"
  apiKey :: "string option"
  getSteeringMessages :: "('w, message list) callback option"
  getFollowUpMessages :: "('w, message list) callback option"
  advisors :: "'w advisor_config list option"
  reasoning :: "thinking_level option"

text \<open>
  \<open>AgentContext\<close>. The field \<open>messages\<close> is a reference to an array: the address of a
  cell of the store.
\<close>

record 'w agent_context =
  systemPrompt :: string
  messages :: nat
  tools :: "'w agent_tool list option"

text \<open>The \<open>Context\<close> and the options handed to the streaming adapter.\<close>

record 'w llm_context =
  llm_systemPrompt :: string
  llm_messages :: "message list"
  llm_tools :: "'w agent_tool list option"

record stream_options =
  opt_apiKey :: "string option"
  opt_reasoning :: "thinking_level option"

text \<open>
  The handle the adapter returns: the events its iteration yields, and what
  \<open>result()\<close> settles to.
\<close>

record response =
  stream_events :: "assistant_message_event list"
  stream_result :: "thrown + assistant_message"

type_synonym 'w stream_fn =
  "model \<Rightarrow> 'w llm_context \<Rightarrow> stream_options \<Rightarrow> ('w, response) callback"

section \<open>The store, the stream and the state of a run\<close>

text \<open>
  Arrays of messages live in a store: \<open>cells\<close> maps an address to the contents of the
  array there, \<open>next_ref\<close> is the first address not yet given out. Together with the
  world this is what an entry point of the loop is started on.
\<close>

record 'w machine =
  world :: 'w
  cells :: "nat \<Rightarrow> message list"
  next_ref :: nat

text \<open>
  Modelled from the spec: the \<open>EventStream\<close> class of package pi-ai, which is not part of
  the sources at hand. \<open>push\<close> appends in order, \<open>end\<close> seals the stream with its
  final value, and a push after the seal is discarded. The stream of a run is the pair of
  \<open>events\<close> and \<open>sealed\<close>; \<open>newMessages\<close> is the array of that name of the run.
\<close>

record 'w run_state = "'w machine" +
  events :: "event list"
  sealed :: "message list option"
  newMessages :: "message list"

definition createAgentStream :: "'w machine \<Rightarrow> 'w run_state" where
  "createAgentStream m =
     \<lparr>world = world m, cells = cells m, next_ref = next_ref m,
      events = [], sealed = None, newMessages = []\<rparr>"

definition push :: "event \<Rightarrow> 'w run_state \<Rightarrow> 'w run_state" where
  "push e s = (case sealed s of None \<Rightarrow> s\<lparr>events := events s @ [e]\<rparr> | Some _ \<Rightarrow> s)"

definition endStream :: "message list \<Rightarrow> 'w run_state \<Rightarrow> 'w run_state" where
  "endStream r s = s\<lparr>sealed := Some r\<rparr>"

text \<open>The array \<open>context.messages\<close>, and the writes the loop makes to it.\<close>

definition log :: "'w agent_context \<Rightarrow> 'w run_state \<Rightarrow> message list" where
  "log context s = cells s (messages context)"

definition ctx_push :: "'w agent_context \<Rightarrow> message \<Rightarrow> 'w run_state \<Rightarrow> 'w run_state" where
  "ctx_push context m s =
     s\<lparr>cells := (cells s)(messages context := cells s (messages context) @ [m])\<rparr>"

text \<open>
  \<^verbatim>\<open>context.messages[context.messages.length - 1] = m\<close>. On an empty array JavaScript
  sets the property \<open>-1\<close> and the elements stay as they are, as \<open>list_update\<close> does.
\<close>

definition ctx_set_last :: "'w agent_context \<Rightarrow> message \<Rightarrow> 'w run_state \<Rightarrow> 'w run_state" where
  "ctx_set_last context m s =
     s\<lparr>cells := (cells s)(messages context :=
          (cells s (messages context))[length (cells s (messages context)) - 1 := m])\<rparr>"

definition new_push :: "message \<Rightarrow> 'w run_state \<Rightarrow> 'w run_state" where
  "new_push m s = s\<lparr>newMessages := newMessages s @ [m]\<rparr>"

text \<open>Awaiting a caller-supplied function: the world moves on, a throw propagates.\<close>

definition call :: "('w, 'a) callback \<Rightarrow> 'w run_state \<Rightarrow> (abort + 'a) \<times> 'w run_state" where
  "call f s =
     (case f (world s) of
        (Inl e, w) \<Rightarrow> (Inl (Thrown e), s\<lparr>world := w\<rparr>)
      | (Inr a, w) \<Rightarrow> (Inr a, s\<lparr>world := w\<rparr>))"

text \<open>Sequencing: the rest of a function body runs only if the step before it returned.\<close>

definition andThen ::
  "(abort + 'a) \<times> 's \<Rightarrow> ('a \<Rightarrow> 's \<Rightarrow> (abort + 'b) \<times> 's) \<Rightarrow> (abort + 'b) \<times> 's" where
  "andThen r k = (case r of (Inl e, s) \<Rightarrow> (Inl e, s) | (Inr a, s) \<Rightarrow> k a s)"

text \<open>\<^verbatim>\<open>(await config.getSteeringMessages?.()) || []\<close>, and the same for follow-ups.\<close>

definition poll ::
  "('w, message list) callback option \<Rightarrow> 'w run_state \<Rightarrow> (abort + message list) \<times> 'w run_state" where
  "poll g s = (case g of None \<Rightarrow> (Inr [], s) | Some f \<Rightarrow> call f s)"

section \<open>Advisor helpers (advisor.ts)\<close>

fun toolCallsOf :: "content list \<Rightarrow> tool_call list" where
  "toolCallsOf [] = []"
| "toolCallsOf (ToolCallContent tc # cs) = tc # toolCallsOf cs"
| "toolCallsOf (_ # cs) = toolCallsOf cs"

fun textsOf :: "content list \<Rightarrow> string list" where
  "textsOf [] = []"
| "textsOf (TextContent t # cs) = t # textsOf cs"
| "textsOf (_ # cs) = textsOf cs"

fun join :: "string \<Rightarrow> string list \<Rightarrow> string" where
  "join sep [] = []"
| "join sep [x] = x"
| "join sep (x # y # ys) = x @ sep @ join sep (y # ys)"

fun defaultAdvisorConvertToLlm :: "message list \<Rightarrow> message list" where
  "defaultAdvisorConvertToLlm [] = []"
| "defaultAdvisorConvertToLlm (AdvisorMessage m # ms) =
     UserMessage (''[Advisor: '' @ advisorName m @ ''] '' @ adv_content m)
       # defaultAdvisorConvertToLlm ms"
| "defaultAdvisorConvertToLlm (CustomMessage _ # ms) = defaultAdvisorConvertToLlm ms"
| "defaultAdvisorConvertToLlm (m # ms) = m # defaultAdvisorConvertToLlm ms"

text \<open>The loop of \<open>defaultExtractResult\<close> runs from the last message down.\<close>

fun extractFromEnd :: "message list \<Rightarrow> string" where
  "extractFromEnd [] = []"
| "extractFromEnd (AssistantMessage msg # _) = join [CHR 0x0A] (textsOf (am_content msg))"
| "extractFromEnd (_ # ms) = extractFromEnd ms"

definition defaultExtractResult :: "message list \<Rightarrow> string" where
  "defaultExtractResult ms = extractFromEnd (rev ms)"

definition createAdvisorMessage :: "string \<Rightarrow> string \<Rightarrow> string \<Rightarrow> advisor_message" where
  "createAdvisorMessage name modelId text = Advisor name text modelId"

section \<open>The agent loop (agent-loop.ts)\<close>

text \<open>
  A nested advisor run is a call of \<open>agentLoop\<close> from inside the loop. The functions below
  take the function that performs such a run as their first argument \<open>run\<close>;
  \<open>agentLoop\<close> at the end closes the recursion. The fuel bounds the number of turns of
  a loop and the depth of the nesting; a function that runs out of it yields
  \<open>OutOfFuel\<close>.
\<close>

type_synonym 'w runner =
  "message list \<Rightarrow> 'w agent_context \<Rightarrow> 'w agent_loop_config \<Rightarrow> 'w stream_fn \<Rightarrow> 'w machine
     \<Rightarrow> (abort + unit) \<times> 'w run_state"

subsection \<open>streamAssistantResponse\<close>

text \<open>
  The \<^verbatim>\<open>for await\<close> over the adapter's events, with the variables \<open>partialMessage\<close> and
  \<open>addedPartial\<close>. When the events end with neither \<open>done\<close> nor \<open>error\<close>, the function
  falls through to \<^verbatim>\<open>return await response.result()\<close>.
\<close>

text \<open>The block shared by the cases \<open>done\<close> and \<open>error\<close>.\<close>

definition streamFinal ::
  "'w agent_context \<Rightarrow> response \<Rightarrow> bool \<Rightarrow> 'w run_state
     \<Rightarrow> (abort + assistant_message) \<times> 'w run_state" where
  "streamFinal context resp addedPartial s =
     (case stream_result resp of
        Inl e \<Rightarrow> (Inl (Thrown e), s)
      | Inr finalMessage \<Rightarrow>
          (let s1 = (if addedPartial then ctx_set_last context (AssistantMessage finalMessage) s
                     else ctx_push context (AssistantMessage finalMessage) s);
               s2 = (if \<not> addedPartial then push (message_start (AssistantMessage finalMessage)) s1
                     else s1)
           in (Inr finalMessage, push (message_end (AssistantMessage finalMessage)) s2)))"

fun streamEvents ::
  "'w agent_context \<Rightarrow> response \<Rightarrow> assistant_message_event list \<Rightarrow> assistant_message option
     \<Rightarrow> bool \<Rightarrow> 'w run_state \<Rightarrow> (abort + assistant_message) \<times> 'w run_state" where
  "streamEvents context resp [] partialMessage addedPartial s =
     (case stream_result resp of
        Inl e \<Rightarrow> (Inl (Thrown e), s)
      | Inr finalMessage \<Rightarrow> (Inr finalMessage, s))"
| "streamEvents context resp (StartEvent partial # evs) partialMessage addedPartial s =
     streamEvents context resp evs (Some partial) True
       (push (message_start (AssistantMessage partial))
          (ctx_push context (AssistantMessage partial) s))"
| "streamEvents context resp (DeltaEvent k partial # evs) partialMessage addedPartial s =
     (case partialMessage of
        Some _ \<Rightarrow>
          streamEvents context resp evs (Some partial) addedPartial
            (push (message_update (AssistantMessage partial) (DeltaEvent k partial))
               (ctx_set_last context (AssistantMessage partial) s))
      | None \<Rightarrow> streamEvents context resp evs partialMessage addedPartial s)"
| "streamEvents context resp (DoneEvent # evs) partialMessage addedPartial s =
     streamFinal context resp addedPartial s"
| "streamEvents context resp (ErrorEvent # evs) partialMessage addedPartial s =
     streamFinal context resp addedPartial s"

text \<open>
  \<^verbatim>\<open>(config.getApiKey ? await config.getApiKey(provider) : undefined) || config.apiKey\<close>:
  an undefined or empty key falls back to the static one.
\<close>

definition resolveApiKey :: "string option \<Rightarrow> string option \<Rightarrow> string option" where
  "resolveApiKey key static =
     (case key of None \<Rightarrow> static | Some k \<Rightarrow> if k = [] then static else Some k)"

definition streamAssistantResponse ::
  "'w agent_context \<Rightarrow> 'w agent_loop_config \<Rightarrow> 'w stream_fn \<Rightarrow> 'w run_state
     \<Rightarrow> (abort + assistant_message) \<times> 'w run_state" where
  "streamAssistantResponse context config streamFn s =
     andThen (case transformContext config of
                None \<Rightarrow> (Inr (log context s), s)
              | Some t \<Rightarrow> call (t (log context s)) s)
       (\<lambda>msgs s.
     andThen (call (convertToLlm config msgs) s)
       (\<lambda>llmMessages s.
     andThen (case getApiKey config of
                None \<Rightarrow> (Inr None, s)
              | Some g \<Rightarrow> call (g (provider (model config))) s)
       (\<lambda>key s.
     andThen (call (streamFn (model config)
                      \<lparr>llm_systemPrompt = systemPrompt context, llm_messages = llmMessages,
                       llm_tools = tools context\<rparr>
                      \<lparr>opt_apiKey = resolveApiKey key (apiKey config),
                       opt_reasoning = reasoning config\<rparr>) s)
       (\<lambda>resp s. streamEvents context resp (stream_events resp) None False s))))"

subsection \<open>skipToolCall\<close>

definition skippedResult :: "tool_call \<Rightarrow> tool_result_message" where
  "skippedResult toolCall =
     ToolResult (tc_id toolCall) (tc_name toolCall)
       [TextContent ''Skipped due to queued user message.''] ''{}'' True"

definition skipToolCall :: "tool_call \<Rightarrow> 'w run_state \<Rightarrow> tool_result_message \<times> 'w run_state" where
  "skipToolCall toolCall s =
     (let result = ToolOutput [TextContent ''Skipped due to queued user message.''] ''{}'';
          s1 = push (tool_execution_start (tc_id toolCall) (tc_name toolCall)
                       (tc_arguments toolCall)) s;
          s2 = push (tool_execution_end (tc_id toolCall) (tc_name toolCall) result True) s1;
          toolResultMessage = ToolResult (tc_id toolCall) (tc_name toolCall)
                                (out_content result) ''{}'' True;
          s3 = push (message_start (ToolResultMessage toolResultMessage)) s2
      in (toolResultMessage, push (message_end (ToolResultMessage toolResultMessage)) s3))"

subsection \<open>runAdvisor\<close>

definition advisorLoopConfig :: "'w advisor_config \<Rightarrow> 'w agent_loop_config" where
  "advisorLoopConfig advisor =
     \<lparr>model = adv_model_of advisor,
      convertToLlm = (case adv_convertToLlm advisor of
                        Some c \<Rightarrow> c
                      | None \<Rightarrow> (\<lambda>ms w. (Inr (defaultAdvisorConvertToLlm ms), w))),
      transformContext = None,
      getApiKey = adv_getApiKey advisor,
      apiKey = adv_apiKey advisor,
      getSteeringMessages = None,
      getFollowUpMessages = None,
      advisors = adv_advisors advisor,
      reasoning = (case thinkingLevel advisor of
                     None \<Rightarrow> None
                   | Some l \<Rightarrow> if l \<noteq> ThinkOff then Some l else None)\<rparr>"

text \<open>
  The arrays of a nested run are of its own making (the \<^verbatim>\<open>[]\<close> below and the copy made
  by \<open>agentLoop\<close>) and the parent keeps no reference to them, so the nested run is given a
  store of its own; its events, its result and the world flow back. The parent forwards
  the child's events as they come and then awaits the child's result: when the child's
  task failed, its stream is never sealed and the parent waits forever.
\<close>

definition runAdvisor ::
  "'w runner \<Rightarrow> 'w advisor_config \<Rightarrow> create_params \<Rightarrow> 'w stream_fn \<Rightarrow> 'w run_state
     \<Rightarrow> (abort + advisor_message option) \<times> 'w run_state" where
  "runAdvisor run advisor params streamFn parentStream =
     (case createContext advisor params (world parentStream) of
        (Inl err, w) \<Rightarrow>
          (Inr None,
           push (advisor_error (adv_name advisor) (error_text err)) (parentStream\<lparr>world := w\<rparr>))
      | (Inr (advisorPrompt, advisorMessages), w) \<Rightarrow>
          (case run advisorMessages
                  \<lparr>systemPrompt = advisorPrompt, messages = 0, tools = adv_tools advisor\<rparr>
                  (advisorLoopConfig advisor) streamFn
                  \<lparr>world = w, cells = (\<lambda>_. []), next_ref = 1\<rparr> of
             (out, child) \<Rightarrow>
               (let s1 = foldl (\<lambda>s e. push (advisor_event (adv_name advisor) e) s)
                           (parentStream\<lparr>world := world child\<rparr>) (events child)
                in case out of
                     Inl OutOfFuel \<Rightarrow> (Inl OutOfFuel, s1)
                   | Inl _ \<Rightarrow> (Inl Stalled, s1)
                   | Inr _ \<Rightarrow>
                       (case sealed child of
                          None \<Rightarrow> (Inl Stalled, s1)
                        | Some resultMessages \<Rightarrow>
                            (case (case extractResult advisor of
                                     Some f \<Rightarrow> f resultMessages
                                   | None \<Rightarrow> Inr (defaultExtractResult resultMessages)) of
                               Inl err \<Rightarrow>
                                 (Inr None,
                                  push (advisor_error (adv_name advisor) (error_text err)) s1)
                             | Inr text \<Rightarrow>
                                 if text = [] then (Inr None, s1)
                                 else (Inr (Some (createAdvisorMessage (adv_name advisor)
                                                    (model_id (adv_model_of advisor)) text)),
                                       s1))))))"

subsection \<open>handleAdvisors\<close>

definition triggerParams ::
  "'w agent_context \<Rightarrow> tool_call \<Rightarrow> tool_result_message \<Rightarrow> 'w run_state \<Rightarrow> trigger_params" where
  "triggerParams context toolCall toolResult s =
     \<lparr>tp_messages = log context s, tp_toolName = tc_name toolCall,
      tp_toolArgs = tc_arguments toolCall, tp_toolResult = toolResult\<rparr>"

definition createParams ::
  "'w agent_context \<Rightarrow> tool_call \<Rightarrow> tool_result_message \<Rightarrow> 'w run_state \<Rightarrow> create_params" where
  "createParams context toolCall toolResult s =
     \<lparr>tp_messages = log context s, tp_toolName = tc_name toolCall,
      tp_toolArgs = tc_arguments toolCall, tp_toolResult = toolResult,
      cp_systemPrompt = systemPrompt context\<rparr>"

text \<open>What the loop does with the message an advisor produced.\<close>

definition injectAdvisorMessage ::
  "'w agent_context \<Rightarrow> 'w advisor_config \<Rightarrow> advisor_message \<Rightarrow> 'w run_state \<Rightarrow> 'w run_state" where
  "injectAdvisorMessage context advisor advisorMsg s =
     push (advisor_end (adv_name advisor) (adv_content advisorMsg))
       (push (message_end (AdvisorMessage advisorMsg))
          (push (message_start (AdvisorMessage advisorMsg))
             (new_push (AdvisorMessage advisorMsg)
                (ctx_push context (AdvisorMessage advisorMsg) s))))"

text \<open>The \<^verbatim>\<open>for (const advisor of advisors)\<close> loop. The trigger is awaited outside any \<open>try\<close>.\<close>

fun handleAdvisorsFrom ::
  "'w runner \<Rightarrow> 'w advisor_config list \<Rightarrow> 'w agent_context \<Rightarrow> tool_call \<Rightarrow> tool_result_message
     \<Rightarrow> 'w stream_fn \<Rightarrow> 'w run_state \<Rightarrow> (abort + unit) \<times> 'w run_state" where
  "handleAdvisorsFrom run [] context toolCall toolResult streamFn s = (Inr (), s)"
| "handleAdvisorsFrom run (advisor # rest) context toolCall toolResult streamFn s =
     andThen (call (trigger advisor (triggerParams context toolCall toolResult s)) s)
       (\<lambda>triggered s.
          if \<not> triggered then handleAdvisorsFrom run rest context toolCall toolResult streamFn s
          else
            andThen (runAdvisor run advisor (createParams context toolCall toolResult s) streamFn
                       (push (advisor_start (adv_name advisor) (tc_name toolCall)) s))
              (\<lambda>advisorMsg s.
                 handleAdvisorsFrom run rest context toolCall toolResult streamFn
                   (case advisorMsg of
                      None \<Rightarrow> s
                    | Some m \<Rightarrow> injectAdvisorMessage context advisor m s)))"

definition handleAdvisors ::
  "'w runner \<Rightarrow> 'w advisor_config list option \<Rightarrow> 'w agent_context \<Rightarrow> tool_call
     \<Rightarrow> tool_result_message \<Rightarrow> 'w stream_fn \<Rightarrow> 'w run_state \<Rightarrow> (abort + unit) \<times> 'w run_state" where
  "handleAdvisors run advs context toolCall toolResult streamFn s =
     (case advs of
        None \<Rightarrow> (Inr (), s)
      | Some as \<Rightarrow> handleAdvisorsFrom run as context toolCall toolResult streamFn s)"

subsection \<open>executeToolCalls\<close>

text \<open>The \<open>catch\<close> block of the dispatcher: the thrown value becomes the result.\<close>

definition caught :: "thrown \<Rightarrow> 's \<Rightarrow> (tool_output \<times> bool) \<times> 's" where
  "caught e s = ((ToolOutput [TextContent (error_text e)] ''{}'', True), s)"

text \<open>
  The \<open>try\<close> block: look-up result, validation, and the awaited \<open>execute\<close>, whose
  \<open>onUpdate\<close> calls push \<open>tool_execution_update\<close> events. Yields \<open>result\<close> and \<open>isError\<close>.
\<close>

definition tryExecute ::
  "'w agent_tool option \<Rightarrow> tool_call \<Rightarrow> 'w run_state \<Rightarrow> (tool_output \<times> bool) \<times> 'w run_state" where
  "tryExecute tool toolCall s =
     (case tool of
        None \<Rightarrow> caught (ErrorObject (''Tool '' @ tc_name toolCall @ '' not found'')) s
      | Some t \<Rightarrow>
          (case parameters t (tc_arguments toolCall) of
             Inl e \<Rightarrow> caught e s
           | Inr validatedArgs \<Rightarrow>
               (case execute t (tc_id toolCall) validatedArgs (world s) of
                  ((updates, outcome), w) \<Rightarrow>
                    (let s1 = foldl (\<lambda>s partialResult.
                                 push (tool_execution_update (tc_id toolCall) (tc_name toolCall)
                                         (tc_arguments toolCall) partialResult) s)
                               (s\<lparr>world := w\<rparr>) updates
                     in case outcome of
                          Resolved result \<Rightarrow> ((result, False), s1)
                        | ThrewSync e \<Rightarrow> caught e s1
                        | RejectedAsync e \<Rightarrow> caught e s1))))"

definition findTool :: "'w agent_context \<Rightarrow> tool_call \<Rightarrow> 'w agent_tool option" where
  "findTool context toolCall =
     (case tools context of
        None \<Rightarrow> None
      | Some ts \<Rightarrow> find (\<lambda>t. tool_name t = tc_name toolCall) ts)"

text \<open>
  One tool call up to its \<open>toolResult\<close> message: start event, the \<open>try\<close>, end event, the
  message pushed to \<open>results\<close> (returned), the log and \<open>newMessages\<close>, and its two events.
\<close>

definition dispatch ::
  "'w agent_context \<Rightarrow> tool_call \<Rightarrow> 'w run_state \<Rightarrow> tool_result_message \<times> 'w run_state" where
  "dispatch context toolCall s =
     (case tryExecute (findTool context toolCall) toolCall
             (push (tool_execution_start (tc_id toolCall) (tc_name toolCall)
                      (tc_arguments toolCall)) s) of
        ((result, isErr), s1) \<Rightarrow>
          (let s2 = push (tool_execution_end (tc_id toolCall) (tc_name toolCall) result isErr) s1;
               toolResultMessage = ToolResult (tc_id toolCall) (tc_name toolCall)
                                     (out_content result) (out_details result) isErr;
               s3 = new_push (ToolResultMessage toolResultMessage)
                      (ctx_push context (ToolResultMessage toolResultMessage) s2)
           in (toolResultMessage,
               push (message_end (ToolResultMessage toolResultMessage))
                 (push (message_start (ToolResultMessage toolResultMessage)) s3))))"

text \<open>The loop over \<open>remainingCalls\<close> after a steering interrupt.\<close>

fun skipRemaining ::
  "'w agent_context \<Rightarrow> tool_call list \<Rightarrow> tool_result_message list \<Rightarrow> 'w run_state
     \<Rightarrow> tool_result_message list \<times> 'w run_state" where
  "skipRemaining context [] results s = (results, s)"
| "skipRemaining context (skipped # rest) results s =
     (case skipToolCall skipped s of
        (skippedRes, s1) \<Rightarrow>
          skipRemaining context rest (results @ [skippedRes])
            (new_push (ToolResultMessage skippedRes)
               (ctx_push context (ToolResultMessage skippedRes) s1)))"

text \<open>
  The \<^verbatim>\<open>for (let index ...)\<close> loop, on the calls from \<open>index\<close> on. It returns \<open>results\<close> and
  \<open>steeringMessages\<close>.
\<close>

fun executeToolCallsFrom ::
  "'w runner \<Rightarrow> 'w agent_context \<Rightarrow> 'w agent_loop_config \<Rightarrow> 'w stream_fn \<Rightarrow> tool_call list
     \<Rightarrow> tool_result_message list \<Rightarrow> 'w run_state
     \<Rightarrow> (abort + tool_result_message list \<times> message list option) \<times> 'w run_state" where
  "executeToolCallsFrom run context config streamFn [] results s = (Inr (results, None), s)"
| "executeToolCallsFrom run context config streamFn (toolCall # remainingCalls) results s =
     (case dispatch context toolCall s of
        (toolResultMessage, s1) \<Rightarrow>
          andThen (handleAdvisors run (advisors config) context toolCall toolResultMessage
                     streamFn s1)
            (\<lambda>_ s.
               case getSteeringMessages config of
                 None \<Rightarrow>
                   executeToolCallsFrom run context config streamFn remainingCalls
                     (results @ [toolResultMessage]) s
               | Some g \<Rightarrow>
                   andThen (call g s)
                     (\<lambda>steering s.
                        if steering \<noteq> [] then
                          (case skipRemaining context remainingCalls
                                  (results @ [toolResultMessage]) s of
                             (results', s') \<Rightarrow> (Inr (results', Some steering), s'))
                        else
                          executeToolCallsFrom run context config streamFn remainingCalls
                            (results @ [toolResultMessage]) s)))"

definition executeToolCalls ::
  "'w runner \<Rightarrow> 'w agent_context \<Rightarrow> assistant_message \<Rightarrow> 'w agent_loop_config \<Rightarrow> 'w stream_fn
     \<Rightarrow> 'w run_state
     \<Rightarrow> (abort + tool_result_message list \<times> message list option) \<times> 'w run_state" where
  "executeToolCalls run context assistantMessage config streamFn s =
     executeToolCallsFrom run context config streamFn
       (toolCallsOf (am_content assistantMessage)) [] s"

subsection \<open>runLoop\<close>

text \<open>The pending messages injected before the next assistant response.\<close>

definition injectPending ::
  "'w agent_context \<Rightarrow> message list \<Rightarrow> 'w run_state \<Rightarrow> 'w run_state" where
  "injectPending context pendingMessages s =
     foldl (\<lambda>s m. new_push m (ctx_push context m (push (message_end m) (push (message_start m) s))))
       s pendingMessages"

text \<open>
  How the inner \<open>while\<close> is left: by the \<open>return\<close> of an errored or aborted response, or
  by its condition, with the values of \<open>firstTurn\<close> and \<open>pendingMessages\<close>.
\<close>

datatype inner_exit = Returned | LoopExit bool "message list"

text \<open>
  How one pass through the body of the inner loop ends: by that \<open>return\<close>, or at the
  bottom of the body with new values of \<open>hasMoreToolCalls\<close>, \<open>pendingMessages\<close> and
  \<open>steeringAfterTools\<close>.
\<close>

datatype turn_exit = TurnReturned | TurnNext bool "message list" "message list option"

text \<open>\<open>agent_end\<close> and the seal, as at both exits of \<open>runLoop\<close>.\<close>

definition finish :: "'w run_state \<Rightarrow> 'w run_state" where
  "finish s = endStream (newMessages s) (push (agent_end (newMessages s)) s)"

text \<open>
  The end of the body: steering messages that came back from the dispatcher become
  pending, otherwise \<open>getSteeringMessages\<close> is polled. Yields \<open>pendingMessages\<close> and
  \<open>steeringAfterTools\<close>.
\<close>

definition nextPending ::
  "'w agent_loop_config \<Rightarrow> message list option \<Rightarrow> 'w run_state
     \<Rightarrow> (abort + message list \<times> message list option) \<times> 'w run_state" where
  "nextPending config steeringAfterTools s =
     (if (case steeringAfterTools of None \<Rightarrow> False | Some st \<Rightarrow> st \<noteq> []) then
        (Inr (case steeringAfterTools of None \<Rightarrow> [] | Some st \<Rightarrow> st, None), s)
      else
        andThen (poll (getSteeringMessages config) s)
          (\<lambda>pendingMessages s. (Inr (pendingMessages, steeringAfterTools), s)))"

text \<open>The body from the check of \<open>stopReason\<close> on; \<open>s\<close> already has the message in \<open>newMessages\<close>.\<close>

definition afterResponse ::
  "'w runner \<Rightarrow> 'w agent_context \<Rightarrow> 'w agent_loop_config \<Rightarrow> 'w stream_fn
     \<Rightarrow> message list option \<Rightarrow> assistant_message \<Rightarrow> 'w run_state
     \<Rightarrow> (abort + turn_exit) \<times> 'w run_state" where
  "afterResponse run context config streamFn steeringAfterTools msg s =
     (if stopReason msg = ErrorStop \<or> stopReason msg = Aborted then
        (Inr TurnReturned, finish (push (turn_end (AssistantMessage msg) []) s))
      else
        andThen (if toolCallsOf (am_content msg) \<noteq> [] then
                   executeToolCalls run context msg config streamFn s
                 else (Inr ([], steeringAfterTools), s))
          (\<lambda>toolExecution s.
             andThen (nextPending config (snd toolExecution)
                        (push (turn_end (AssistantMessage msg) (fst toolExecution)) s))
               (\<lambda>next s.
                  (Inr (TurnNext (toolCallsOf (am_content msg) \<noteq> []) (fst next) (snd next)),
                   s))))"

text \<open>The body of the inner loop.\<close>

definition turn ::
  "'w runner \<Rightarrow> 'w agent_context \<Rightarrow> 'w agent_loop_config \<Rightarrow> 'w stream_fn
     \<Rightarrow> bool \<Rightarrow> message list \<Rightarrow> message list option \<Rightarrow> 'w run_state
     \<Rightarrow> (abort + turn_exit) \<times> 'w run_state" where
  "turn run context config streamFn firstTurn pendingMessages steeringAfterTools s =
     andThen (streamAssistantResponse context config streamFn
                (injectPending context pendingMessages
                   (if \<not> firstTurn then push turn_start s else s)))
       (\<lambda>msg s.
          afterResponse run context config streamFn steeringAfterTools msg
            (new_push (AssistantMessage msg) s))"

text \<open>
  The inner loop, with its variables \<open>firstTurn\<close>, \<open>hasMoreToolCalls\<close>,
  \<open>pendingMessages\<close> and \<open>steeringAfterTools\<close>.
\<close>

fun innerLoop ::
  "nat \<Rightarrow> 'w runner \<Rightarrow> 'w agent_context \<Rightarrow> 'w agent_loop_config \<Rightarrow> 'w stream_fn
     \<Rightarrow> bool \<Rightarrow> bool \<Rightarrow> message list \<Rightarrow> message list option \<Rightarrow> 'w run_state
     \<Rightarrow> (abort + inner_exit) \<times> 'w run_state" where
  "innerLoop 0 run context config streamFn firstTurn hasMoreToolCalls pendingMessages
       steeringAfterTools s =
     (if \<not> (hasMoreToolCalls \<or> pendingMessages \<noteq> []) then
        (Inr (LoopExit firstTurn pendingMessages), s)
      else (Inl OutOfFuel, s))"
| "innerLoop (Suc n) run context config streamFn firstTurn hasMoreToolCalls pendingMessages
       steeringAfterTools s =
     (if \<not> (hasMoreToolCalls \<or> pendingMessages \<noteq> []) then
        (Inr (LoopExit firstTurn pendingMessages), s)
      else
        andThen (turn run context config streamFn firstTurn pendingMessages steeringAfterTools s)
          (\<lambda>t s.
             case t of
               TurnReturned \<Rightarrow> (Inr Returned, s)
             | TurnNext hasMore pending steering \<Rightarrow>
                 innerLoop n run context config streamFn False hasMore pending steering s))"

text \<open>The outer loop: the inner loop, then the poll for follow-up messages.\<close>

fun outerLoop ::
  "nat \<Rightarrow> 'w runner \<Rightarrow> 'w agent_context \<Rightarrow> 'w agent_loop_config \<Rightarrow> 'w stream_fn
     \<Rightarrow> bool \<Rightarrow> message list \<Rightarrow> 'w run_state \<Rightarrow> (abort + unit) \<times> 'w run_state" where
  "outerLoop 0 run context config streamFn firstTurn pendingMessages s = (Inl OutOfFuel, s)"
| "outerLoop (Suc n) run context config streamFn firstTurn pendingMessages s =
     andThen (innerLoop (Suc n) run context config streamFn firstTurn True pendingMessages None s)
       (\<lambda>exit s.
          case exit of
            Returned \<Rightarrow> (Inr (), s)
          | LoopExit firstTurn' pendingMessages' \<Rightarrow>
              andThen (poll (getFollowUpMessages config) s)
                (\<lambda>followUpMessages s.
                   if followUpMessages \<noteq> [] then
                     outerLoop n run context config streamFn firstTurn' followUpMessages s
                   else (Inr (), finish s)))"

definition runLoop ::
  "nat \<Rightarrow> 'w runner \<Rightarrow> 'w agent_context \<Rightarrow> 'w agent_loop_config \<Rightarrow> 'w stream_fn
     \<Rightarrow> 'w run_state \<Rightarrow> (abort + unit) \<times> 'w run_state" where
  "runLoop fuel run currentContext config streamFn s =
     andThen (poll (getSteeringMessages config) s)
       (\<lambda>pendingMessages s.
          outerLoop fuel run currentContext config streamFn True pendingMessages s)"

subsection \<open>agentLoop and agentLoopContinue\<close>

text \<open>
  \<open>agentLoop\<close> builds \<open>currentContext\<close> around a new array, the copy of the caller's
  messages followed by the prompts: a fresh cell of the store.
\<close>

definition agentLoopWith :: "'w runner \<Rightarrow> nat \<Rightarrow> 'w runner" where
  "agentLoopWith run fuel prompts context config streamFn m =
     (let stream = createAgentStream m;
          a = next_ref m;
          currentContext = context\<lparr>messages := a\<rparr>;
          s0 = stream\<lparr>cells := (cells m)(a := cells m (messages context) @ prompts),
                      next_ref := Suc a, newMessages := prompts\<rparr>;
          s1 = push turn_start (push agent_start s0);
          s2 = foldl (\<lambda>s prompt. push (message_end prompt) (push (message_start prompt) s))
                 s1 prompts
      in runLoop fuel run currentContext config streamFn s2)"

primrec agentLoop :: "nat \<Rightarrow> 'w runner" where
  "agentLoop 0 = (\<lambda>prompts context config streamFn m. (Inl OutOfFuel, createAgentStream m))"
| "agentLoop (Suc n) = agentLoopWith (agentLoop n) (Suc n)"

text \<open>
  \<open>agentLoopContinue\<close> throws synchronously, before a stream exists (\<open>Inl\<close>), or runs the
  loop on \<^verbatim>\<open>{ ...context }\<close>: a copy of the context object that refers to the caller's
  array.
\<close>

definition agentLoopContinue ::
  "nat \<Rightarrow> 'w agent_context \<Rightarrow> 'w agent_loop_config \<Rightarrow> 'w stream_fn \<Rightarrow> 'w machine
     \<Rightarrow> thrown + (abort + unit) \<times> 'w run_state" where
  "agentLoopContinue fuel context config streamFn m =
     (if length (cells m (messages context)) = 0 then
        Inl (ErrorObject ''Cannot continue: no messages in context'')
      else if role (last (cells m (messages context))) = RoleAssistant then
        Inl (ErrorObject ''Cannot continue from message role: assistant'')
      else
        Inr (let stream = createAgentStream m;
                 currentContext = context;
                 s1 = push turn_start (push agent_start stream)
             in runLoop fuel (agentLoop fuel) currentContext config streamFn s1))"

section \<open>Notions used in the proofs\<close>

text \<open>
  \<open>quiet s s'\<close>: from \<open>s\<close> to \<open>s'\<close> the seal is untouched and the events pushed contain no
  \<open>agent_end\<close>. \<open>finished s s'\<close>: the stream, open in \<open>s\<close>, received further events, none
  of them \<open>agent_end\<close>, then one \<open>agent_end\<close>, and was sealed with its messages.
\<close>

fun is_agent_end :: "event \<Rightarrow> bool" where
  "is_agent_end (agent_end _) = True"
| "is_agent_end _ = False"

definition quiet :: "'w run_state \<Rightarrow> 'w run_state \<Rightarrow> bool" where
  "quiet s s' \<longleftrightarrow>
     sealed s' = sealed s \<and> (\<exists>evs. events s' = events s @ evs \<and> (\<forall>e\<in>set evs. \<not> is_agent_end e))"

definition finished :: "'w run_state \<Rightarrow> 'w run_state \<Rightarrow> bool" where
  "finished s s' \<longleftrightarrow>
     (sealed s = None \<longrightarrow>
        (\<exists>evs ms. events s' = events s @ evs @ [agent_end ms] \<and>
           (\<forall>e\<in>set evs. \<not> is_agent_end e) \<and> sealed s' = Some ms))"

definition ends :: "bool \<Rightarrow> 'w run_state \<Rightarrow> 'w run_state \<Rightarrow> bool" where
  "ends done s s' = (if done then finished s s' else quiet s s')"

text \<open>
  The \<open>toolResult\<close> messages of a list and their ids. \<open>extends_by c d s s'\<close>: from \<open>s\<close>
  to \<open>s'\<close> the messages \<open>d\<close> were appended to \<open>newMessages\<close> and to the array of the context
  \<open>c\<close>, and no other array changed.
\<close>

fun resultsOf :: "message list \<Rightarrow> tool_result_message list" where
  "resultsOf [] = []"
| "resultsOf (ToolResultMessage r # ms) = r # resultsOf ms"
| "resultsOf (_ # ms) = resultsOf ms"

definition resultIds :: "message list \<Rightarrow> string list" where
  "resultIds ms = map toolCallId (resultsOf ms)"

definition extends_by :: "'w agent_context \<Rightarrow> message list \<Rightarrow> 'w run_state \<Rightarrow> 'w run_state \<Rightarrow> bool" where
  "extends_by c d s s' \<longleftrightarrow>
     newMessages s' = newMessages s @ d \<and> log c s' = log c s @ d \<and>
     (\<forall>r. r \<noteq> messages c \<longrightarrow> cells s' r = cells s r)"

definition grows :: "'w agent_context \<Rightarrow> (message \<Rightarrow> bool) \<Rightarrow> 'w run_state \<Rightarrow> 'w run_state \<Rightarrow> bool" where
  "grows c P s s' \<longleftrightarrow> (\<exists>d. extends_by c d s s' \<and> (\<forall>m\<in>set d. P m))"

definition fromTools :: "message \<Rightarrow> bool" where
  "fromTools m \<longleftrightarrow> role m = RoleToolResult \<or> role m = RoleAdvisor"

definition skipEvents :: "tool_call \<Rightarrow> event list" where
  "skipEvents tc =
     [tool_execution_start (tc_id tc) (tc_name tc) (tc_arguments tc),
      tool_execution_end (tc_id tc) (tc_name tc)
        (ToolOutput [TextContent ''Skipped due to queued user message.''] ''{}'') True,
      message_start (ToolResultMessage (skippedResult tc)),
      message_end (ToolResultMessage (skippedResult tc))]"

fun terminated :: "assistant_message_event list \<Rightarrow> bool \<Rightarrow> bool" where
  "terminated [] started = False"
| "terminated (StartEvent _ # evs) started = (\<not> started \<and> terminated evs True)"
| "terminated (DeltaEvent _ _ # evs) started = terminated evs started"
| "terminated (DoneEvent # evs) started = True"
| "terminated (ErrorEvent # evs) started = True"

definition wellBehaved :: "'w stream_fn \<Rightarrow> bool" where
  "wellBehaved sf \<longleftrightarrow>
     (\<forall>md c opts w r w'. sf md c opts w = (Inr r, w') \<longrightarrow> terminated (stream_events r) False)"

definition queued :: "('w, message list) callback option \<Rightarrow> message list \<Rightarrow> bool" where
  "queued cb ms \<longleftrightarrow> ms = [] \<or> (\<exists>g w w'. cb = Some g \<and> g w = (Inr ms, w'))"

definition keeps :: "'w agent_context \<Rightarrow> 'w run_state \<Rightarrow> 'w run_state \<Rightarrow> bool" where
  "keeps c s s' \<longleftrightarrow>
     newMessages s' = newMessages s \<and> (\<forall>r. r \<noteq> messages c \<longrightarrow> cells s' r = cells s r)"

definition framed :: "'w agent_context \<Rightarrow> 'w run_state \<Rightarrow> 'w run_state \<Rightarrow> bool" where
  "framed c s s' \<longleftrightarrow> (\<forall>r. r \<noteq> messages c \<longrightarrow> cells s' r = cells s r)"

definition turn_shape ::
  "'w agent_loop_config \<Rightarrow> assistant_message \<Rightarrow> message list \<Rightarrow> turn_exit \<Rightarrow> bool" where
  "turn_shape cfg msg d x =
     (case x of
        TurnReturned \<Rightarrow> (stopReason msg = ErrorStop \<or> stopReason msg = Aborted) \<and> d = []
      | TurnNext h p st \<Rightarrow>
          stopReason msg \<noteq> ErrorStop \<and> stopReason msg \<noteq> Aborted \<and>
          resultIds d = map tc_id (toolCallsOf (am_content msg)) \<and>
          queued (getSteeringMessages cfg) p \<and>
          (\<forall>ms. st = Some ms \<longrightarrow> queued (getSteeringMessages cfg) ms))"

definition harmless :: "message list \<Rightarrow> bool" where
  "harmless ms \<longleftrightarrow> (\<forall>m\<in>set ms. role m \<noteq> RoleAssistant \<and> role m \<noteq> RoleToolResult)"

definition polite :: "('w, message list) callback option \<Rightarrow> bool" where
  "polite cb \<longleftrightarrow> (\<forall>ms. queued cb ms \<longrightarrow> harmless ms)"

fun segments_ok :: "message list \<Rightarrow> bool" where
  "segments_ok [] = True"
| "segments_ok (AssistantMessage a # ms) =
     ((stopReason a = ErrorStop \<or> stopReason a = Aborted \<or>
       resultIds (takeWhile (\<lambda>m. role m \<noteq> RoleAssistant) ms)
         = map tc_id (toolCallsOf (am_content a))) \<and>
      segments_ok ms)"
| "segments_ok (_ # ms) = segments_ok ms"

section \<open>A scripted example\<close>

text \<open>
  The world of the example counts the tool calls that ran and records whether the user's
  steering message was delivered. The assistant first asks for two \<open>echo\<close> calls and
  answers \<open>done\<close> once a tool result is in its context; an advisor reviews every
  \<open>echo\<close>; the user's message arrives after the first call.
\<close>

type_synonym demo_world = "nat \<times> bool"

definition echoTool :: "demo_world agent_tool" where
  "echoTool =
     \<lparr>tool_name = ''echo'', tool_label = ''Echo'', tool_description = ''echo'',
      parameters = (\<lambda>args. Inr args),
      execute = (\<lambda>toolCallId args w.
         (([], Resolved (ToolOutput [TextContent (''echoed: '' @ args)] ''{}'')),
          (Suc (fst w), snd w)))\<rparr>"

definition tcA :: tool_call where "tcA = ToolCall ''tc-a'' ''echo'' ''x''"
definition tcB :: tool_call where "tcB = ToolCall ''tc-b'' ''echo'' ''y''"

definition twoCalls :: assistant_message where
  "twoCalls = Assistant [ToolCallContent tcA, ToolCallContent tcB] ToolUse"

definition doneMsg :: assistant_message where
  "doneMsg = Assistant [TextContent ''done''] Stop"

definition looksGood :: assistant_message where
  "looksGood = Assistant [TextContent ''Looks good!''] Stop"

definition respond :: "assistant_message \<Rightarrow> response" where
  "respond msg = \<lparr>stream_events = [StartEvent (Assistant [] Stop), DoneEvent],
                  stream_result = Inr msg\<rparr>"

definition demoStream :: "demo_world stream_fn" where
  "demoStream md ctx opts w =
     (if model_id md = ''advisor-model'' then (Inr (respond looksGood), w)
      else if resultsOf (llm_messages ctx) = [] then (Inr (respond twoCalls), w)
      else (Inr (respond doneMsg), w))"

definition demoSteering :: "(demo_world, message list) callback" where
  "demoSteering w =
     (if fst w = 1 \<and> \<not> snd w then (Inr [UserMessage ''stop and do X''], (fst w, True))
      else (Inr [], w))"

definition demoAdvisor :: "demo_world advisor_config" where
  "demoAdvisor = AdvisorConfig ''reviewer'' (Model ''advisor-model'' ''p'')
     (\<lambda>params w. (Inr (tp_toolName params = ''echo''), w))
     None None
     (\<lambda>params w. (Inr (''review'', [UserMessage ''please review'']), w))
     None None None None None"

definition demoConfig :: "demo_world agent_loop_config" where
  "demoConfig =
     \<lparr>model = Model ''main-model'' ''p'', convertToLlm = (\<lambda>ms w. (Inr ms, w)),
      transformContext = None, getApiKey = None, apiKey = None,
      getSteeringMessages = Some demoSteering, getFollowUpMessages = None,
      advisors = Some [demoAdvisor], reasoning = None\<rparr>"

definition demoContext :: "demo_world agent_context" where
  "demoContext = \<lparr>systemPrompt = ''sys'', messages = 0, tools = Some [echoTool]\<rparr>"

definition demoMachine :: "demo_world machine" where
  "demoMachine = \<lparr>world = (0, False), cells = (\<lambda>_. []), next_ref = 1\<rparr>"

definition userMachine :: "demo_world machine" where
  "userMachine = \<lparr>world = (0, False), cells = (\<lambda>_. [UserMessage ''hi'']), next_ref = 1\<rparr>"

definition assistantMachine :: "demo_world machine" where
  "assistantMachine =
     \<lparr>world = (0, False), cells = (\<lambda>_. [UserMessage ''hi'', AssistantMessage doneMsg]),
      next_ref = 1\<rparr>"

definition abortedMsg :: assistant_message where
  "abortedMsg = Assistant [ToolCallContent tcA] Aborted"

definition abortedStream :: "demo_world stream_fn" where
  "abortedStream md ctx opts w =
     (Inr \<lparr>stream_events = [StartEvent (Assistant [] Stop), ErrorEvent],
            stream_result = Inr abortedMsg\<rparr>, w)"

definition reviewContext :: "demo_world agent_context" where
  "reviewContext = \<lparr>systemPrompt = ''review'', messages = 0, tools = None\<rparr>"

definition reviewParams :: create_params where
  "reviewParams =
     \<lparr>tp_messages = [], tp_toolName = ''echo'', tp_toolArgs = ''x'',
      tp_toolResult = ToolResult ''tc-a'' ''echo'' [TextContent ''echoed: x''] ''{}'' False,
      cp_systemPrompt = ''sys''\<rparr>"









definition plainConfig :: "demo_world agent_loop_config" where
  "plainConfig =
     \<lparr>model = Model ''main-model'' ''p'', convertToLlm = (\<lambda>ms w. (Inr ms, w)),
      transformContext = None, getApiKey = None, apiKey = None,
      getSteeringMessages = None, getFollowUpMessages = None,
      advisors = None, reasoning = None\<rparr>"

definition throwingTrigger :: "demo_world advisor_config" where
  "throwingTrigger = AdvisorConfig ''reviewer'' (Model ''advisor-model'' ''p'')
     (\<lambda>params w. (Inl (ErrorObject ''trigger failed''), w))
     None None
     (\<lambda>params w. (Inr (''review'', [UserMessage ''please review'']), w))
     None None None None None"

definition throwingCreate :: "demo_world advisor_config" where
  "throwingCreate = AdvisorConfig ''reviewer'' (Model ''advisor-model'' ''p'')
     (\<lambda>params w. (Inr True, w))
     None None
     (\<lambda>params w. (Inl (ErrorObject ''bad''), w))
     None None None None None"

definition oneCall :: assistant_message where
  "oneCall = Assistant [ToolCallContent tcA] ToolUse"

definition oneCallStream :: "demo_world stream_fn" where
  "oneCallStream md ctx opts w =
     (if resultsOf (llm_messages ctx) = [] then (Inr (respond oneCall), w)
      else (Inr (respond doneMsg), w))"

definition echoResult :: tool_result_message where
  "echoResult = ToolResult ''tc-a'' ''echo'' [TextContent ''echoed: x''] ''{}'' False"

definition earlySteering :: "(demo_world, message list) callback" where
  "earlySteering w =
     (if \<not> snd w then (Inr [UserMessage ''typed while waiting''], (fst w, True))
      else (Inr [], w))"

definition earlyConfig :: "demo_world agent_loop_config" where
  "earlyConfig = plainConfig\<lparr>getSteeringMessages := Some earlySteering\<rparr>"

definition doneStream :: "demo_world stream_fn" where
  "doneStream md ctx opts w = (Inr (respond doneMsg), w)"


lemma push_simps [simp]:
  "sealed (push e s) = sealed s"
  "newMessages (push e s) = newMessages s"
  "world (push e s) = world s"
  "cells (push e s) = cells s"
  "next_ref (push e s) = next_ref s"
  "log c (push e s) = log c s"
  by (simp_all add: push_def log_def split: option.splits)

lemma events_push: "events (push e s) = (if sealed s = None then events s @ [e] else events s)"
  by (simp add: push_def split: option.splits)

lemma ctx_push_simps [simp]:
  "sealed (ctx_push c m s) = sealed s"
  "events (ctx_push c m s) = events s"
  "newMessages (ctx_push c m s) = newMessages s"
  "world (ctx_push c m s) = world s"
  "next_ref (ctx_push c m s) = next_ref s"
  "log c (ctx_push c m s) = log c s @ [m]"
  "r \<noteq> messages c \<Longrightarrow> cells (ctx_push c m s) r = cells s r"
  by (simp_all add: ctx_push_def log_def)

lemma ctx_set_last_simps [simp]:
  "sealed (ctx_set_last c m s) = sealed s"
  "events (ctx_set_last c m s) = events s"
  "newMessages (ctx_set_last c m s) = newMessages s"
  "world (ctx_set_last c m s) = world s"
  "next_ref (ctx_set_last c m s) = next_ref s"
  "log c (ctx_set_last c m s) = (log c s)[length (log c s) - 1 := m]"
  "r \<noteq> messages c \<Longrightarrow> cells (ctx_set_last c m s) r = cells s r"
  by (simp_all add: ctx_set_last_def log_def)

lemma new_push_simps [simp]:
  "sealed (new_push m s) = sealed s"
  "events (new_push m s) = events s"
  "newMessages (new_push m s) = newMessages s @ [m]"
  "world (new_push m s) = world s"
  "cells (new_push m s) = cells s"
  "next_ref (new_push m s) = next_ref s"
  "log c (new_push m s) = log c s"
  by (simp_all add: new_push_def log_def)

lemma log_world_update [simp]: "log c (s\<lparr>world := w\<rparr>) = log c s"
  by (simp add: log_def)

lemma andThen_Inl [simp]: "andThen (Inl e, s) k = (Inl e, s)"
  by (simp add: andThen_def)

lemma andThen_Inr [simp]: "andThen (Inr a, s) k = k a s"
  by (simp add: andThen_def)

lemma andThen_cases:
  assumes "andThen r k = (out, s')"
  obtains (stop) e where "r = (Inl e, s')" "out = Inl e"
        | (go) a s1 where "r = (Inr a, s1)" "k a s1 = (out, s')"
  using assms by (cases r; cases "fst r") (auto simp: andThen_def)

lemma call_state: "snd (call f s) = s\<lparr>world := snd (f (world s))\<rparr>"
  by (simp add: call_def split: prod.splits sum.splits)

lemma call_value:
  "fst (call f s) = (case fst (f (world s)) of Inl e \<Rightarrow> Inl (Thrown e) | Inr a \<Rightarrow> Inr a)"
  by (simp add: call_def split: prod.splits sum.splits)

lemma poll_state: "\<exists>w. snd (poll g s) = s\<lparr>world := w\<rparr>"
  by (cases g) (auto simp: poll_def call_state intro: exI [of _ "world s"])

subsection \<open>quiet\<close>

lemma quiet_refl [simp]: "quiet s s"
  by (simp add: quiet_def)

lemma quiet_trans: "quiet s s1 \<Longrightarrow> quiet s1 s2 \<Longrightarrow> quiet s s2"
  by (fastforce simp: quiet_def)

lemma quiet_same: "events s' = events s \<Longrightarrow> sealed s' = sealed s \<Longrightarrow> quiet s s'"
  by (simp add: quiet_def)

lemma quiet_push: "\<not> is_agent_end e \<Longrightarrow> quiet s (push e s)"
  by (simp add: quiet_def events_push)

lemma quiet_step: "quiet s s1 \<Longrightarrow> \<not> is_agent_end e \<Longrightarrow> quiet s (push e s1)"
  by (blast intro: quiet_trans quiet_push)

lemma quiet_keep: "quiet s s1 \<Longrightarrow> events s2 = events s1 \<Longrightarrow> sealed s2 = sealed s1 \<Longrightarrow> quiet s s2"
  by (simp add: quiet_def)

lemma quiet_ctx_push: "quiet s s1 \<Longrightarrow> quiet s (ctx_push c m s1)"
  by (simp add: quiet_def)

lemma quiet_ctx_set_last: "quiet s s1 \<Longrightarrow> quiet s (ctx_set_last c m s1)"
  by (simp add: quiet_def)

lemma quiet_new_push: "quiet s s1 \<Longrightarrow> quiet s (new_push m s1)"
  by (simp add: quiet_def)

lemma quiet_world: "quiet s s1 \<Longrightarrow> quiet s (s1\<lparr>world := w\<rparr>)"
  by (simp add: quiet_def)

lemmas quiet_intros = quiet_step quiet_ctx_push quiet_ctx_set_last quiet_new_push quiet_world

lemma quiet_foldl:
  assumes "quiet s s1" and "\<And>s x. quiet s (f s x)"
  shows "quiet s (foldl f s1 xs)"
  using assms(1)
proof (induction xs arbitrary: s1)
  case Nil
  then show ?case by simp
next
  case (Cons x xs)
  have "quiet s (f s1 x)"
    using Cons.prems assms(2) [of s1 x] by (rule quiet_trans)
  then show ?case using Cons.IH by simp
qed

lemma quiet_andThen:
  assumes "quiet s (snd r)" and "\<And>a s1. quiet s1 (snd (k a s1))"
  shows "quiet s (snd (andThen r k))"
proof (cases r)
  case (Pair x s1)
  then show ?thesis
    using assms by (cases x) (auto intro: quiet_trans)
qed

lemma quiet_call: "quiet s (snd (call f s))"
  by (simp add: call_state quiet_same)

lemma quiet_poll: "quiet s (snd (poll g s))"
  by (cases g) (simp_all add: poll_def quiet_call)

lemma quiet_streamFinal: "quiet s (snd (streamFinal c resp added s))"
  by (auto simp: streamFinal_def Let_def split: sum.splits intro!: quiet_intros)

lemma quiet_streamEvents: "quiet s (snd (streamEvents c resp evs pm added s))"
proof (induction c resp evs pm added s rule: streamEvents.induct)
  case (1 ctx resp partialMessage addedPartial s)
  then show ?case by (simp split: sum.splits)
next
  case (2 ctx resp partial evs partialMessage addedPartial s)
  have "quiet s (push (message_start (AssistantMessage partial))
          (ctx_push ctx (AssistantMessage partial) s))"
    by (intro quiet_intros) simp_all
  with 2 show ?case by (auto intro: quiet_trans)
next
  case (3 ctx resp k partial evs partialMessage addedPartial s)
  have "quiet s (push (message_update (AssistantMessage partial) (DeltaEvent k partial))
               (ctx_set_last ctx (AssistantMessage partial) s))"
    by (intro quiet_intros) simp_all
  with 3 show ?case by (cases partialMessage) (auto intro: quiet_trans)
next
  case (4 ctx resp evs partialMessage addedPartial s)
  then show ?case by (simp add: quiet_streamFinal)
next
  case (5 ctx resp evs partialMessage addedPartial s)
  then show ?case by (simp add: quiet_streamFinal)
qed

lemma quiet_streamAssistantResponse: "quiet s (snd (streamAssistantResponse c cfg sf s))"
  unfolding streamAssistantResponse_def
  by (intro quiet_andThen quiet_call quiet_streamEvents)
     (auto split: option.splits intro: quiet_call)

lemma quiet_skipToolCall: "quiet s (snd (skipToolCall tc s))"
  by (auto simp: skipToolCall_def Let_def intro!: quiet_intros)

lemma quiet_skipRemaining: "quiet s (snd (skipRemaining c tcs results s))"
proof (induction tcs arbitrary: results s)
  case Nil
  then show ?case by simp
next
  case (Cons tc tcs)
  obtain r s1 where sk: "skipToolCall tc s = (r, s1)" by (cases "skipToolCall tc s")
  have "quiet s s1" using quiet_skipToolCall [of s tc] sk by simp
  then have "quiet s (new_push (ToolResultMessage r) (ctx_push c (ToolResultMessage r) s1))"
    by (intro quiet_intros)
  then show ?case using sk Cons.IH by (auto intro: quiet_trans)
qed

lemma quiet_caught: "quiet s s1 \<Longrightarrow> quiet s (snd (caught e s1))"
  by (simp add: caught_def)

lemma quiet_tryExecute: "quiet s (snd (tryExecute tool tc s))"
proof (cases tool)
  case None
  then show ?thesis by (simp add: tryExecute_def quiet_caught)
next
  case (Some t)
  show ?thesis
  proof (cases "parameters t (tc_arguments tc)")
    case (Inl e)
    then show ?thesis using Some by (simp add: tryExecute_def quiet_caught)
  next
    case (Inr validatedArgs)
    obtain updates outcome w where
      ex: "execute t (tc_id tc) validatedArgs (world s) = ((updates, outcome), w)"
      by (metis surj_pair)
    have "quiet s (foldl (\<lambda>s partialResult.
                     push (tool_execution_update (tc_id tc) (tc_name tc)
                             (tc_arguments tc) partialResult) s)
                   (s\<lparr>world := w\<rparr>) updates)"
      by (intro quiet_foldl quiet_world quiet_push) simp_all
    then show ?thesis
      using Some Inr ex
      by (cases outcome) (simp_all add: tryExecute_def quiet_caught)
  qed
qed

lemma quiet_dispatch: "quiet s (snd (dispatch c tc s))"
proof -
  let ?s0 = "push (tool_execution_start (tc_id tc) (tc_name tc) (tc_arguments tc)) s"
  obtain result isErr s1 where
    t: "tryExecute (findTool c tc) tc ?s0 = ((result, isErr), s1)"
    by (metis surj_pair)
  have "quiet ?s0 s1" using quiet_tryExecute [of ?s0 "findTool c tc" tc] t by simp
  moreover have "quiet s ?s0" by (rule quiet_push) simp
  ultimately have "quiet s s1" by (blast intro: quiet_trans)
  then show ?thesis
    using t by (auto simp: dispatch_def Let_def intro!: quiet_intros)
qed

lemma quiet_injectPending: "quiet s (injectPending c pending s)"
  unfolding injectPending_def
  by (intro quiet_foldl quiet_refl quiet_intros) simp_all

lemma quiet_runAdvisor: "quiet s (snd (runAdvisor run advisor params sf s))"
proof (cases "createContext advisor params (world s)")
  case (Pair r w)
  show ?thesis
  proof (cases r)
    case (Inl err)
    then show ?thesis using Pair
      by (auto simp: runAdvisor_def intro!: quiet_intros)
  next
    case (Inr cx)
    obtain advisorPrompt advisorMessages where cx: "cx = (advisorPrompt, advisorMessages)"
      by (cases cx)
    obtain out child where
      r: "run advisorMessages
            \<lparr>systemPrompt = advisorPrompt, messages = 0, tools = adv_tools advisor\<rparr>
            (advisorLoopConfig advisor) sf \<lparr>world = w, cells = (\<lambda>_. []), next_ref = 1\<rparr>
          = (out, child)"
      by (metis surj_pair)
    let ?s1 = "foldl (\<lambda>s e. push (advisor_event (adv_name advisor) e) s)
                 (s\<lparr>world := world child\<rparr>) (events child)"
    have q: "quiet s ?s1"
      by (intro quiet_foldl quiet_world quiet_push) simp_all
    then have q': "quiet s (push (advisor_error (adv_name advisor) t) ?s1)" for t
      by (intro quiet_intros) simp_all
    show ?thesis
      using Pair Inr cx r q q'
      by (simp add: runAdvisor_def Let_def
          split: sum.splits abort.splits option.splits)
  qed
qed

lemma quiet_injectAdvisorMessage: "quiet s s1 \<Longrightarrow> quiet s (injectAdvisorMessage c advisor m s1)"
  unfolding injectAdvisorMessage_def by (intro quiet_intros) simp_all

lemma quiet_handleAdvisorsFrom:
  "quiet s (snd (handleAdvisorsFrom run advs c tc tr sf s))"
proof (induction advs arbitrary: s)
  case Nil
  then show ?case by simp
next
  case (Cons advisor rest)
  show ?case
    unfolding handleAdvisorsFrom.simps
  proof (intro quiet_andThen quiet_call)
    fix triggered :: bool and s1 :: "'a run_state"
    let ?s2 = "push (advisor_start (adv_name advisor) (tc_name tc)) s1"
    have "quiet s1 (snd (andThen (runAdvisor run advisor (createParams c tc tr s1) sf ?s2)
              (\<lambda>advisorMsg s. handleAdvisorsFrom run rest c tc tr sf
                   (case advisorMsg of None \<Rightarrow> s
                    | Some m \<Rightarrow> injectAdvisorMessage c advisor m s))))"
    proof (intro quiet_andThen)
      have "quiet s1 ?s2" by (rule quiet_push) simp
      then show "quiet s1 (snd (runAdvisor run advisor (createParams c tc tr s1) sf ?s2))"
        using quiet_runAdvisor by (blast intro: quiet_trans)
    next
      fix a :: "advisor_message option" and s3 :: "'a run_state"
      have "quiet s3 (case a of None \<Rightarrow> s3 | Some m \<Rightarrow> injectAdvisorMessage c advisor m s3)"
        by (cases a) (simp_all add: quiet_injectAdvisorMessage)
      then show "quiet s3 (snd (handleAdvisorsFrom run rest c tc tr sf
                   (case a of None \<Rightarrow> s3 | Some m \<Rightarrow> injectAdvisorMessage c advisor m s3)))"
        using Cons.IH by (blast intro: quiet_trans)
    qed
    then show "quiet s1 (snd (if \<not> triggered then handleAdvisorsFrom run rest c tc tr sf s1
          else andThen (runAdvisor run advisor (createParams c tc tr s1) sf ?s2)
              (\<lambda>advisorMsg s. handleAdvisorsFrom run rest c tc tr sf
                   (case advisorMsg of None \<Rightarrow> s
                    | Some m \<Rightarrow> injectAdvisorMessage c advisor m s))))"
      using Cons.IH by simp
  qed
qed

lemma quiet_handleAdvisors: "quiet s (snd (handleAdvisors run advs c tc tr sf s))"
  by (cases advs) (simp_all add: handleAdvisors_def quiet_handleAdvisorsFrom)

lemma quiet_executeToolCallsFrom:
  "quiet s (snd (executeToolCallsFrom run c cfg sf tcs results s))"
proof (induction tcs arbitrary: results s)
  case Nil
  then show ?case by simp
next
  case (Cons tc rest)
  obtain tr s1 where d: "dispatch c tc s = (tr, s1)" by (metis surj_pair)
  have q1: "quiet s s1" using quiet_dispatch [of s c tc] d by simp
  have "quiet s1 (snd (andThen (handleAdvisors run (advisors cfg) c tc tr sf s1)
            (\<lambda>_ s.
               case getSteeringMessages cfg of
                 None \<Rightarrow> executeToolCallsFrom run c cfg sf rest (results @ [tr]) s
               | Some g \<Rightarrow>
                   andThen (call g s)
                     (\<lambda>steering s.
                        if steering \<noteq> [] then
                          (case skipRemaining c rest (results @ [tr]) s of
                             (results', s') \<Rightarrow> (Inr (results', Some steering), s'))
                        else executeToolCallsFrom run c cfg sf rest (results @ [tr]) s))))"
  proof (intro quiet_andThen quiet_handleAdvisors)
    fix a :: unit and s2 :: "'a run_state"
    show "quiet s2 (snd (case getSteeringMessages cfg of
                 None \<Rightarrow> executeToolCallsFrom run c cfg sf rest (results @ [tr]) s2
               | Some g \<Rightarrow>
                   andThen (call g s2)
                     (\<lambda>steering s.
                        if steering \<noteq> [] then
                          (case skipRemaining c rest (results @ [tr]) s of
                             (results', s') \<Rightarrow> (Inr (results', Some steering), s'))
                        else executeToolCallsFrom run c cfg sf rest (results @ [tr]) s)))"
    proof (cases "getSteeringMessages cfg")
      case None
      then show ?thesis using Cons.IH by simp
    next
      case (Some g)
      have "quiet s3 (snd (case skipRemaining c rest (results @ [tr]) s3 of
                             (results', s') \<Rightarrow> (Inr (results', Some steering), s')))"
        for s3 :: "'a run_state" and steering :: "message list"
        using quiet_skipRemaining [of s3 c rest "results @ [tr]"]
        by (cases "skipRemaining c rest (results @ [tr]) s3") simp
      then show ?thesis
        using Some Cons.IH by (auto intro!: quiet_andThen quiet_call)
    qed
  qed
  with q1 show ?case using d by (auto intro: quiet_trans)
qed

lemma quiet_executeToolCalls: "quiet s (snd (executeToolCalls run c msg cfg sf s))"
  by (simp add: executeToolCalls_def quiet_executeToolCallsFrom)

lemma finished_finish:
  assumes "quiet s s1"
  shows "finished s (finish s1)"
proof -
  from assms obtain evs where
    "sealed s1 = sealed s" "events s1 = events s @ evs" "\<forall>e\<in>set evs. \<not> is_agent_end e"
    by (auto simp: quiet_def)
  then show ?thesis
    by (auto simp: finished_def finish_def endStream_def events_push)
qed

lemma finished_trans: "quiet s s1 \<Longrightarrow> finished s1 s' \<Longrightarrow> finished s s'"
  by (fastforce simp: quiet_def finished_def)

lemma ends_trans: "quiet s s1 \<Longrightarrow> ends b s1 s' \<Longrightarrow> ends b s s'"
  by (auto simp: ends_def intro: finished_trans quiet_trans)

lemma ends_quiet: "\<not> b \<Longrightarrow> quiet s s' \<Longrightarrow> ends b s s'"
  by (simp add: ends_def)

lemma andThen_fst_neq:
  assumes "\<And>a s1. fst (k a s1) \<noteq> Inr X"
  shows "fst (andThen r k) \<noteq> Inr X"
proof (cases r)
  case (Pair x s1)
  then show ?thesis using assms by (cases x) auto
qed

lemma quiet_nextPending: "quiet s (snd (nextPending cfg st s))"
  unfolding nextPending_def
  by (auto intro!: quiet_andThen quiet_poll)

lemma afterResponse_ends:
  "ends (fst (afterResponse run c cfg sf st msg s) = Inr TurnReturned) s
     (snd (afterResponse run c cfg sf st msg s))"
proof (cases "stopReason msg = ErrorStop \<or> stopReason msg = Aborted")
  case True
  have "quiet s (push (turn_end (AssistantMessage msg) []) s)"
    by (rule quiet_push) simp
  with True show ?thesis
    by (simp add: afterResponse_def ends_def finished_finish)
next
  case False
  have "fst (afterResponse run c cfg sf st msg s) \<noteq> Inr TurnReturned"
    using False unfolding afterResponse_def
    by (simp add: andThen_fst_neq)
  moreover have "quiet s (snd (afterResponse run c cfg sf st msg s))"
    using False unfolding afterResponse_def
    by (auto intro!: quiet_andThen quiet_executeToolCalls
        intro: quiet_trans [OF quiet_push quiet_nextPending])
  ultimately show ?thesis by (simp add: ends_def)
qed

lemma turn_ends:
  "ends (fst (turn run c cfg sf ft p st s) = Inr TurnReturned) s
     (snd (turn run c cfg sf ft p st s))"
proof -
  let ?s0 = "injectPending c p (if \<not> ft then push turn_start s else s)"
  have q0: "quiet s ?s0"
    by (rule quiet_trans [OF _ quiet_injectPending]) (simp add: quiet_push)
  obtain r s1 where sar: "streamAssistantResponse c cfg sf ?s0 = (r, s1)"
    by (metis surj_pair)
  have q1: "quiet s s1"
    using quiet_streamAssistantResponse [of ?s0 c cfg sf] sar q0 by (auto intro: quiet_trans)
  show ?thesis
  proof (cases r)
    case (Inl e)
    then show ?thesis using sar q1 by (simp add: turn_def ends_def)
  next
    case (Inr msg)
    have "quiet s (new_push (AssistantMessage msg) s1)"
      using q1 by (rule quiet_new_push)
    then show ?thesis
      using Inr sar afterResponse_ends [of run c cfg sf st msg "new_push (AssistantMessage msg) s1"]
      by (simp add: turn_def ends_trans)
  qed
qed

lemma innerLoop_ends:
  "ends (fst (innerLoop fuel run c cfg sf ft h p st s) = Inr Returned) s
     (snd (innerLoop fuel run c cfg sf ft h p st s))"
proof (induction fuel arbitrary: ft h p st s)
  case 0
  then show ?case by (simp add: ends_def)
next
  case (Suc n)
  show ?case
  proof (cases "h \<or> p \<noteq> []")
    case False
    then show ?thesis by (simp add: ends_def)
  next
    case True
    obtain r s1 where t: "turn run c cfg sf ft p st s = (r, s1)" by (metis surj_pair)
    have e: "ends (r = Inr TurnReturned) s s1"
      using turn_ends [of run c cfg sf ft p st s] t by simp
    show ?thesis
    proof (cases r)
      case (Inl e')
      then show ?thesis using True t e by (simp add: ends_def)
    next
      case (Inr x)
      show ?thesis
      proof (cases x)
        case TurnReturned
        then show ?thesis using True t e Inr by (simp add: ends_def)
      next
        case (TurnNext h' p' st')
        then have "quiet s s1" using e Inr by (simp add: ends_def)
        then show ?thesis
          using True t Inr TurnNext Suc.IH [of False h' p' st' s1]
          by (simp add: ends_trans)
      qed
    qed
  qed
qed

lemma outerLoop_ends:
  "ends (fst (outerLoop fuel run c cfg sf ft p s) = Inr ()) s
     (snd (outerLoop fuel run c cfg sf ft p s))"
proof (induction fuel arbitrary: ft p s)
  case 0
  then show ?case by (simp add: ends_def)
next
  case (Suc n)
  obtain r s1 where i: "innerLoop (Suc n) run c cfg sf ft True p None s = (r, s1)"
    by (metis surj_pair)
  have e: "ends (r = Inr Returned) s s1"
    using innerLoop_ends [of "Suc n" run c cfg sf ft True p None s] i by simp
  show ?case
  proof (cases r)
    case (Inl e')
    then show ?thesis using i e by (simp add: ends_def)
  next
    case (Inr x)
    show ?thesis
    proof (cases x)
      case Returned
      then show ?thesis using i e Inr by (simp add: ends_def)
    next
      case (LoopExit ft' p')
      then have q1: "quiet s s1" using e Inr by (simp add: ends_def)
      obtain r2 s2 where f: "poll (getFollowUpMessages cfg) s1 = (r2, s2)"
        by (metis surj_pair)
      have q2: "quiet s s2"
        using quiet_poll [of s1 "getFollowUpMessages cfg"] f q1 by (auto intro: quiet_trans)
      show ?thesis
      proof (cases r2)
        case (Inl e')
        then show ?thesis using i Inr LoopExit f q2 by (simp add: ends_def)
      next
        case (Inr followUp)
        show ?thesis
        proof (cases "followUp = []")
          case True
          then show ?thesis
            using i \<open>r = Inr x\<close> LoopExit f q2 Inr
            by (simp add: finished_finish ends_def)
        next
          case False
          then show ?thesis
            using i \<open>r = Inr x\<close> LoopExit f Inr
              ends_trans [OF q2 Suc.IH [of ft' followUp s2]]
            by simp
        qed
      qed
    qed
  qed
qed

lemma runLoop_ends:
  "ends (fst (runLoop fuel run c cfg sf s) = Inr ()) s (snd (runLoop fuel run c cfg sf s))"
proof -
  obtain r s1 where p: "poll (getSteeringMessages cfg) s = (r, s1)" by (metis surj_pair)
  have q: "quiet s s1" using quiet_poll [of s "getSteeringMessages cfg"] p by simp
  show ?thesis
  proof (cases r)
    case (Inl e)
    then show ?thesis using p q by (simp add: runLoop_def ends_def)
  next
    case (Inr pending)
    then show ?thesis
      using p ends_trans [OF q outerLoop_ends [of fuel run c cfg sf True pending s1]]
      by (simp add: runLoop_def)
  qed
qed

lemma sealed_streamAssistantResponse:
  "sealed (snd (streamAssistantResponse c cfg sf s)) = sealed s"
  using quiet_streamAssistantResponse [of s c cfg sf] by (simp add: quiet_def)

lemma sealed_injectPending: "sealed (injectPending c p s) = sealed s"
  using quiet_injectPending [of s c p] by (simp add: quiet_def)

lemma resultsOf_append [simp]: "resultsOf (xs @ ys) = resultsOf xs @ resultsOf ys"
  by (induction xs rule: resultsOf.induct) simp_all

lemma resultIds_simps [simp]:
  "resultIds [] = []"
  "resultIds (xs @ ys) = resultIds xs @ resultIds ys"
  "resultIds (ToolResultMessage r # ms) = toolCallId r # resultIds ms"
  "resultIds (AdvisorMessage a # ms) = resultIds ms"
  "resultIds (UserMessage u # ms) = resultIds ms"
  "resultIds (CustomMessage u # ms) = resultIds ms"
  "resultIds (AssistantMessage am # ms) = resultIds ms"
  by (simp_all add: resultIds_def)

lemma extends_by_refl [simp]: "extends_by c [] s s"
  by (simp add: extends_by_def)

lemma extends_by_trans:
  "extends_by c d1 s s1 \<Longrightarrow> extends_by c d2 s1 s2 \<Longrightarrow> extends_by c (d1 @ d2) s s2"
  by (simp add: extends_by_def)

lemma extends_by_keep:
  "extends_by c d s s1 \<Longrightarrow> newMessages s2 = newMessages s1 \<Longrightarrow> cells s2 = cells s1
     \<Longrightarrow> extends_by c d s s2"
  by (simp add: extends_by_def log_def)

lemma extends_by_both:
  "extends_by c d s s1 \<Longrightarrow> extends_by c (d @ [m]) s (new_push m (ctx_push c m s1))"
  by (simp add: extends_by_def)

lemma grows_refl [simp]: "grows c P s s"
  unfolding grows_def by (rule exI [of _ "[]"]) simp

lemma grows_trans: "grows c P s s1 \<Longrightarrow> grows c P s1 s2 \<Longrightarrow> grows c P s s2"
  unfolding grows_def
  by (metis extends_by_trans Un_iff set_append)

lemma grows_keep:
  "grows c P s s1 \<Longrightarrow> newMessages s2 = newMessages s1 \<Longrightarrow> cells s2 = cells s1 \<Longrightarrow> grows c P s s2"
  unfolding grows_def by (blast intro: extends_by_keep)

lemma grows_push: "grows c P s s1 \<Longrightarrow> grows c P s (push e s1)"
  by (erule grows_keep) simp_all

lemma grows_world: "grows c P s s1 \<Longrightarrow> grows c P s (s1\<lparr>world := w\<rparr>)"
  by (erule grows_keep) simp_all

lemma grows_both: "grows c P s s1 \<Longrightarrow> P m \<Longrightarrow> grows c P s (new_push m (ctx_push c m s1))"
  unfolding grows_def
  by (metis extends_by_both Un_iff set_append empty_iff empty_set set_ConsD)

lemma grows_foldl:
  assumes "grows c P s s1" and "\<And>s x. grows c P s (f s x)"
  shows "grows c P s (foldl f s1 xs)"
  using assms(1)
proof (induction xs arbitrary: s1)
  case Nil
  then show ?case by simp
next
  case (Cons x xs)
  have "grows c P s (f s1 x)"
    using Cons.prems assms(2) [of s1 x] by (rule grows_trans)
  then show ?case using Cons.IH by simp
qed

lemma grows_andThen:
  assumes "grows c P s (snd r)" and "\<And>a s1. grows c P s1 (snd (k a s1))"
  shows "grows c P s (snd (andThen r k))"
proof (cases r)
  case (Pair x s1)
  then show ?thesis
    using assms by (cases x) (auto intro: grows_trans)
qed

lemma grows_call: "grows c P s (snd (call f s))"
  by (simp add: call_state grows_world)

lemma grows_poll: "grows c P s (snd (poll g s))"
  by (cases g) (simp_all add: poll_def grows_call)

lemma grows_mono: "grows c P s s' \<Longrightarrow> (\<And>m. P m \<Longrightarrow> Q m) \<Longrightarrow> grows c Q s s'"
  unfolding grows_def by blast

lemma grows_skipToolCall: "grows c P s (snd (skipToolCall tc s))"
  by (auto simp: skipToolCall_def Let_def intro!: grows_push)

lemma grows_caught: "grows c P s s1 \<Longrightarrow> grows c P s (snd (caught e s1))"
  by (simp add: caught_def)

lemma grows_tryExecute: "grows c P s (snd (tryExecute tool tc s))"
proof (cases tool)
  case None
  then show ?thesis by (simp add: tryExecute_def grows_caught)
next
  case (Some t)
  show ?thesis
  proof (cases "parameters t (tc_arguments tc)")
    case (Inl e)
    then show ?thesis using Some by (simp add: tryExecute_def grows_caught)
  next
    case (Inr validatedArgs)
    obtain updates outcome w where
      ex: "execute t (tc_id tc) validatedArgs (world s) = ((updates, outcome), w)"
      by (metis surj_pair)
    have "grows c P s (foldl (\<lambda>s partialResult.
                     push (tool_execution_update (tc_id tc) (tc_name tc)
                             (tc_arguments tc) partialResult) s)
                   (s\<lparr>world := w\<rparr>) updates)"
      by (intro grows_foldl grows_world grows_push grows_refl)
    then show ?thesis
      using Some Inr ex
      by (cases outcome) (simp_all add: tryExecute_def grows_caught)
  qed
qed

lemma grows_runAdvisor: "grows c P s (snd (runAdvisor run advisor params sf s))"
proof (cases "createContext advisor params (world s)")
  case (Pair r w)
  show ?thesis
  proof (cases r)
    case (Inl err)
    then show ?thesis using Pair
      by (auto simp: runAdvisor_def intro!: grows_push grows_world)
  next
    case (Inr cx)
    obtain advisorPrompt advisorMessages where cx: "cx = (advisorPrompt, advisorMessages)"
      by (cases cx)
    obtain out child where
      r: "run advisorMessages
            \<lparr>systemPrompt = advisorPrompt, messages = 0, tools = adv_tools advisor\<rparr>
            (advisorLoopConfig advisor) sf \<lparr>world = w, cells = (\<lambda>_. []), next_ref = 1\<rparr>
          = (out, child)"
      by (metis surj_pair)
    let ?s1 = "foldl (\<lambda>s e. push (advisor_event (adv_name advisor) e) s)
                 (s\<lparr>world := world child\<rparr>) (events child)"
    have q: "grows c P s ?s1"
      by (intro grows_foldl grows_world grows_push grows_refl)
    then have q': "grows c P s (push (advisor_error (adv_name advisor) t) ?s1)" for t
      by (rule grows_push)
    show ?thesis
      using Pair Inr cx r q q'
      by (simp add: runAdvisor_def Let_def
          split: sum.splits abort.splits option.splits)
  qed
qed

lemma grows_injectAdvisorMessage:
  "grows c P s s1 \<Longrightarrow> P (AdvisorMessage m) \<Longrightarrow> grows c P s (injectAdvisorMessage c advisor m s1)"
  unfolding injectAdvisorMessage_def by (intro grows_push grows_both)

lemma grows_handleAdvisorsFrom:
  assumes P: "\<And>a. P (AdvisorMessage a)"
  shows "grows c P s (snd (handleAdvisorsFrom run advs c tc tr sf s))"
proof (induction advs arbitrary: s)
  case Nil
  then show ?case by simp
next
  case (Cons advisor rest)
  show ?case
    unfolding handleAdvisorsFrom.simps
  proof (intro grows_andThen grows_call)
    fix triggered :: bool and s1 :: "'a run_state"
    let ?s2 = "push (advisor_start (adv_name advisor) (tc_name tc)) s1"
    have "grows c P s1 (snd (andThen (runAdvisor run advisor (createParams c tc tr s1) sf ?s2)
              (\<lambda>advisorMsg s. handleAdvisorsFrom run rest c tc tr sf
                   (case advisorMsg of None \<Rightarrow> s
                    | Some m \<Rightarrow> injectAdvisorMessage c advisor m s))))"
    proof (intro grows_andThen)
      have "grows c P s1 ?s2" by (intro grows_push grows_refl)
      then show "grows c P s1 (snd (runAdvisor run advisor (createParams c tc tr s1) sf ?s2))"
        using grows_runAdvisor by (blast intro: grows_trans)
    next
      fix a :: "advisor_message option" and s3 :: "'a run_state"
      have "grows c P s3 (case a of None \<Rightarrow> s3 | Some m \<Rightarrow> injectAdvisorMessage c advisor m s3)"
        by (cases a) (simp_all add: grows_injectAdvisorMessage P)
      then show "grows c P s3 (snd (handleAdvisorsFrom run rest c tc tr sf
                   (case a of None \<Rightarrow> s3 | Some m \<Rightarrow> injectAdvisorMessage c advisor m s3)))"
        using Cons.IH by (blast intro: grows_trans)
    qed
    then show "grows c P s1 (snd (if \<not> triggered then handleAdvisorsFrom run rest c tc tr sf s1
          else andThen (runAdvisor run advisor (createParams c tc tr s1) sf ?s2)
              (\<lambda>advisorMsg s. handleAdvisorsFrom run rest c tc tr sf
                   (case advisorMsg of None \<Rightarrow> s
                    | Some m \<Rightarrow> injectAdvisorMessage c advisor m s))))"
      using Cons.IH by simp
  qed
qed

lemma grows_handleAdvisors:
  "(\<And>a. P (AdvisorMessage a)) \<Longrightarrow> grows c P s (snd (handleAdvisors run advs c tc tr sf s))"
  by (cases advs) (simp_all add: handleAdvisors_def grows_handleAdvisorsFrom)

lemma advisors_no_results:
  assumes "grows c (\<lambda>m. role m = RoleAdvisor) s s'"
  obtains d where "extends_by c d s s'" "resultIds d = []" "\<forall>m\<in>set d. fromTools m"
proof -
  from assms obtain d where d: "extends_by c d s s'" "\<forall>m\<in>set d. role m = RoleAdvisor"
    by (auto simp: grows_def)
  have "resultIds d = []" using d(2)
  proof (induction d)
    case Nil
    then show ?case by simp
  next
    case (Cons m d)
    then show ?case by (cases m) simp_all
  qed
  with d that show ?thesis by (auto simp: fromTools_def)
qed

lemma dispatch_extends:
  "extends_by c [ToolResultMessage (fst (dispatch c tc s))] s (snd (dispatch c tc s))"
proof -
  let ?s0 = "push (tool_execution_start (tc_id tc) (tc_name tc) (tc_arguments tc)) s"
  obtain result isErr s1 where
    t: "tryExecute (findTool c tc) tc ?s0 = ((result, isErr), s1)"
    by (metis surj_pair)
  have "grows c (\<lambda>_. False) ?s0 s1"
    using grows_tryExecute [of c _ ?s0 "findTool c tc" tc] t by simp
  then have "extends_by c [] ?s0 s1" by (auto simp: grows_def)
  then have "extends_by c [] s s1" by (simp add: extends_by_def)
  then show ?thesis
    using t by (simp add: dispatch_def Let_def extends_by_def)
qed

lemma dispatch_id: "toolCallId (fst (dispatch c tc s)) = tc_id tc"
  by (simp add: dispatch_def Let_def split: prod.splits)

lemma skipToolCall_result: "fst (skipToolCall tc s) = skippedResult tc"
  by (simp add: skipToolCall_def skippedResult_def Let_def)

lemma skipRemaining_extends:
  "extends_by c (map (\<lambda>tc. ToolResultMessage (skippedResult tc)) tcs) s
     (snd (skipRemaining c tcs results s))"
proof (induction tcs arbitrary: results s)
  case Nil
  then show ?case by simp
next
  case (Cons tc tcs)
  obtain r s1 where sk: "skipToolCall tc s = (r, s1)" by (metis surj_pair)
  have r: "r = skippedResult tc" using skipToolCall_result [of tc s] sk by simp
  have "grows c (\<lambda>_. False) s s1" using grows_skipToolCall [of c _ s tc] sk by simp
  then have "extends_by c [] s s1" by (auto simp: grows_def)
  then have "extends_by c ([] @ [ToolResultMessage r]) s
               (new_push (ToolResultMessage r) (ctx_push c (ToolResultMessage r) s1))"
    by (rule extends_by_both)
  from extends_by_trans [OF this Cons.IH] show ?case
    using sk r by simp
qed

lemma skipRemaining_results:
  "fst (skipRemaining c tcs results s) = results @ map skippedResult tcs"
proof (induction tcs arbitrary: results s)
  case Nil
  then show ?case by simp
next
  case (Cons tc tcs)
  obtain r s1 where sk: "skipToolCall tc s = (r, s1)" by (metis surj_pair)
  have "r = skippedResult tc" using skipToolCall_result [of tc s] sk by simp
  then show ?case using sk Cons.IH by simp
qed

lemma skipped_ids [simp]:
  "resultIds (map (\<lambda>tc. ToolResultMessage (skippedResult tc)) tcs) = map tc_id tcs"
  by (induction tcs) (simp_all add: skippedResult_def)

lemma executeToolCallsFrom_extends:
  "\<exists>d. extends_by c d s (snd (executeToolCallsFrom run c cfg sf tcs results s)) \<and>
       (\<forall>m\<in>set d. fromTools m) \<and>
       (\<forall>x. fst (executeToolCallsFrom run c cfg sf tcs results s) = Inr x \<longrightarrow>
            resultIds d = map tc_id tcs)"
proof (induction tcs arbitrary: results s)
  case Nil
  show ?case by (rule exI [of _ "[]"]) simp
next
  case (Cons tc rest)
  obtain tr s1 where d: "dispatch c tc s = (tr, s1)" by (metis surj_pair)
  have e1: "extends_by c [ToolResultMessage tr] s s1" and id: "toolCallId tr = tc_id tc"
    using dispatch_extends [of c tc s] dispatch_id [of c tc s] d by simp_all
  obtain r2 s2 where h: "handleAdvisors run (advisors cfg) c tc tr sf s1 = (r2, s2)"
    by (metis surj_pair)
  have "grows c (\<lambda>m. role m = RoleAdvisor) s1 s2"
    using grows_handleAdvisors [of "\<lambda>m. role m = RoleAdvisor" c s1 run "advisors cfg" tc tr sf] h
    by simp
  then obtain d2 where e2: "extends_by c d2 s1 s2" and n2: "resultIds d2 = []"
    and f2: "\<forall>m\<in>set d2. fromTools m"
    by (rule advisors_no_results)
  let ?d = "[ToolResultMessage tr] @ d2"
  have e12: "extends_by c ?d s s2" using e1 e2 by (rule extends_by_trans)
  have f12: "\<forall>m\<in>set ?d. fromTools m" using f2 by (simp add: fromTools_def)
  have ids: "resultIds ?d = [tc_id tc]" using n2 id by simp
  show ?case
  proof (cases r2)
    case (Inl e)
    then show ?thesis using d h e12 f12 by (intro exI [of _ ?d]) simp
  next
    case (Inr u)
    let ?go = "executeToolCallsFrom run c cfg sf rest (results @ [tr])"
    have rec: "\<exists>d. extends_by c d s (snd (?go s3)) \<and> (\<forall>m\<in>set d. fromTools m) \<and>
         (\<forall>x. fst (?go s3) = Inr x \<longrightarrow> resultIds d = map tc_id (tc # rest))"
      if "extends_by c ?d s s3" for s3
    proof -
      from Cons.IH [where s = s3 and results = "results @ [tr]"] obtain d3 where
        "extends_by c d3 s3 (snd (?go s3))" "\<forall>m\<in>set d3. fromTools m"
        "\<forall>x. fst (?go s3) = Inr x \<longrightarrow> resultIds d3 = map tc_id rest"
        by blast
      with that f12 ids show ?thesis
        by (intro exI [of _ "?d @ d3"]) (auto simp: extends_by_def)
    qed
    show ?thesis
    proof (cases "getSteeringMessages cfg")
      case None
      then show ?thesis using d h Inr rec [OF e12] by simp
    next
      case (Some g)
      obtain r3 s3 where g: "call g s2 = (r3, s3)" by (metis surj_pair)
      have "s3 = s2\<lparr>world := snd (g (world s2))\<rparr>" using call_state [of g s2] g by simp
      then have e3: "extends_by c ?d s s3" using e12 by (simp add: extends_by_def)
      show ?thesis
      proof (cases r3)
        case (Inl e)
        then show ?thesis using d h Inr Some g e3 f12 by (intro exI [of _ ?d]) simp
      next
        case (Inr steering)
        show ?thesis
        proof (cases "steering = []")
          case True
          then show ?thesis using d h \<open>r2 = Inr u\<close> Some g Inr rec [OF e3] by simp
        next
          case False
          let ?sk = "map (\<lambda>tc. ToolResultMessage (skippedResult tc)) rest"
          obtain res4 s4 where sk: "skipRemaining c rest (results @ [tr]) s3 = (res4, s4)"
            by (metis surj_pair)
          have "extends_by c ?sk s3 s4"
            using skipRemaining_extends [of c rest s3 "results @ [tr]"] sk by simp
          with e3 have "extends_by c (?d @ ?sk) s s4" by (rule extends_by_trans)
          moreover have "\<forall>m\<in>set (?d @ ?sk). fromTools m"
            using f12 by (auto simp: fromTools_def)
          moreover have "resultIds (?d @ ?sk) = map tc_id (tc # rest)"
            using ids by simp
          ultimately show ?thesis
            using d h \<open>r2 = Inr u\<close> Some g Inr False sk
            by (intro exI [of _ "?d @ ?sk"]) simp
        qed
      qed
    qed
  qed
qed

lemma quiet_sealed: "quiet s s' \<Longrightarrow> sealed s' = sealed s"
  by (simp add: quiet_def)

lemma skipToolCall_state:
  assumes "sealed s = None"
  shows "events (snd (skipToolCall tc s)) = events s @ skipEvents tc"
    and "world (snd (skipToolCall tc s)) = world s"
    and "sealed (snd (skipToolCall tc s)) = None"
  using assms
  by (simp_all add: skipToolCall_def skipEvents_def skippedResult_def Let_def events_push)

lemma skipRemaining_state:
  assumes "sealed s = None"
  shows "events (snd (skipRemaining c tcs results s)) = events s @ concat (map skipEvents tcs) \<and>
         world (snd (skipRemaining c tcs results s)) = world s"
  using assms
proof (induction tcs arbitrary: results s)
  case Nil
  then show ?case by simp
next
  case (Cons tc tcs)
  obtain r s1 where sk: "skipToolCall tc s = (r, s1)" by (metis surj_pair)
  have s1: "events s1 = events s @ skipEvents tc" "world s1 = world s" "sealed s1 = None"
    using skipToolCall_state [OF Cons.prems, of tc] sk by simp_all
  let ?s2 = "new_push (ToolResultMessage r) (ctx_push c (ToolResultMessage r) s1)"
  have "sealed ?s2 = None" using s1 by simp
  from Cons.IH [OF this, of "results @ [r]"] show ?case
    using sk s1 by simp
qed

lemma injectPending_extends: "extends_by c pending s (injectPending c pending s)"
proof -
  have "extends_by c (d @ pending) s0
          (foldl (\<lambda>s m. new_push m (ctx_push c m (push (message_end m) (push (message_start m) s))))
             s pending)"
    if "extends_by c d s0 s" for d s0 s
    using that
  proof (induction pending arbitrary: d s)
    case Nil
    then show ?case by simp
  next
    case (Cons m pending)
    have "extends_by c (d @ [m]) s0
            (new_push m (ctx_push c m (push (message_end m) (push (message_start m) s))))"
      using Cons.prems by (simp add: extends_by_def)
    from Cons.IH [OF this] show ?case by simp
  qed
  from this [of "[]" s s] show ?thesis by (simp add: injectPending_def)
qed

lemmas exec_simps =
  agentLoopWith_def runLoop_def outerLoop.simps innerLoop.simps turn_def afterResponse_def
  nextPending_def executeToolCalls_def executeToolCallsFrom.simps dispatch_def tryExecute_def
  findTool_def caught_def handleAdvisors_def handleAdvisorsFrom.simps runAdvisor_def
  advisorLoopConfig_def triggerParams_def createParams_def injectAdvisorMessage_def
  skipRemaining.simps skipToolCall_def injectPending_def streamAssistantResponse_def
  streamEvents.simps streamFinal_def resolveApiKey_def poll_def call_def finish_def createAdvisorMessage_def
  defaultExtractResult_def

lemma log_record:
  "log c \<lparr>world = w, cells = cs, next_ref = n, events = es, sealed = sl, newMessages = nm\<rparr>
     = cs (messages c)"
  by (simp add: log_def)

lemmas state_simps =
  events_push createAgentStream_def endStream_def log_record

lemmas demo_defs =
  demoContext_def demoConfig_def demoStream_def demoMachine_def demoSteering_def demoAdvisor_def
  echoTool_def tcA_def tcB_def twoCalls_def doneMsg_def looksGood_def respond_def

subsection \<open>What streamAssistantResponse does to the messages\<close>

lemma keeps_refl [simp]: "keeps c s s"
  by (simp add: keeps_def)

lemma keeps_trans: "keeps c s s1 \<Longrightarrow> keeps c s1 s2 \<Longrightarrow> keeps c s s2"
  by (simp add: keeps_def)

lemma keeps_push: "keeps c s s1 \<Longrightarrow> keeps c s (push e s1)"
  by (simp add: keeps_def)

lemma keeps_ctx_push: "keeps c s s1 \<Longrightarrow> keeps c s (ctx_push c m s1)"
  by (simp add: keeps_def)

lemma keeps_ctx_set_last: "keeps c s s1 \<Longrightarrow> keeps c s (ctx_set_last c m s1)"
  by (simp add: keeps_def)

lemma keeps_world: "keeps c s s1 \<Longrightarrow> keeps c s (s1\<lparr>world := w\<rparr>)"
  by (simp add: keeps_def)

lemmas keeps_intros = keeps_push keeps_ctx_push keeps_ctx_set_last keeps_world

lemma keeps_andThen:
  assumes "keeps c s (snd r)" and "\<And>a s1. keeps c s1 (snd (k a s1))"
  shows "keeps c s (snd (andThen r k))"
proof (cases r)
  case (Pair x s1)
  then show ?thesis
    using assms by (cases x) (auto intro: keeps_trans)
qed

lemma keeps_call: "keeps c s (snd (call f s))"
  by (simp add: call_state keeps_world)

lemma keeps_streamFinal: "keeps c s (snd (streamFinal c resp added s))"
  by (auto simp: streamFinal_def Let_def split: sum.splits intro!: keeps_intros)

lemma keeps_streamEvents: "keeps c s (snd (streamEvents c resp evs pm added s))"
proof (induction c resp evs pm added s rule: streamEvents.induct)
  case (1 ctx resp partialMessage addedPartial s)
  then show ?case by (simp split: sum.splits)
next
  case (2 ctx resp partial evs partialMessage addedPartial s)
  have "keeps ctx s (push (message_start (AssistantMessage partial))
          (ctx_push ctx (AssistantMessage partial) s))"
    by (intro keeps_intros keeps_refl)
  with 2 show ?case by (auto intro: keeps_trans)
next
  case (3 ctx resp k partial evs partialMessage addedPartial s)
  have "keeps ctx s (push (message_update (AssistantMessage partial) (DeltaEvent k partial))
               (ctx_set_last ctx (AssistantMessage partial) s))"
    by (intro keeps_intros keeps_refl)
  with 3 show ?case by (cases partialMessage) (auto intro: keeps_trans)
next
  case (4 ctx resp evs partialMessage addedPartial s)
  then show ?case by (simp add: keeps_streamFinal)
next
  case (5 ctx resp evs partialMessage addedPartial s)
  then show ?case by (simp add: keeps_streamFinal)
qed

lemma keeps_streamAssistantResponse: "keeps c s (snd (streamAssistantResponse c cfg sf s))"
  unfolding streamAssistantResponse_def
  by (intro keeps_andThen keeps_call keeps_streamEvents)
     (auto split: option.splits intro: keeps_call)

lemma streamEvents_log:
  assumes "terminated evs added" and "(pm \<noteq> None) = added" and "added \<longrightarrow> log c s \<noteq> []"
    and "streamEvents c resp evs pm added s = (Inr msg, s')"
  shows "log c s' = (if added then butlast (log c s) else log c s) @ [AssistantMessage msg]"
  using assms
proof (induction c resp evs pm added s rule: streamEvents.induct)
  case (1 ctx resp partialMessage addedPartial s)
  then show ?case by simp
next
  case (2 ctx resp partial evs partialMessage addedPartial s)
  let ?s1 = "push (message_start (AssistantMessage partial))
               (ctx_push ctx (AssistantMessage partial) s)"
  from 2 have "log ctx s' = (if True then butlast (log ctx ?s1) else log ctx ?s1)
                 @ [AssistantMessage msg]"
    by (intro "2.IH") simp_all
  then show ?case using "2.prems" by simp
next
  case (3 ctx resp k partial evs partialMessage addedPartial s)
  show ?case
  proof (cases partialMessage)
    case None
    with 3 show ?thesis by simp
  next
    case (Some p)
    let ?s1 = "push (message_update (AssistantMessage partial) (DeltaEvent k partial))
                 (ctx_set_last ctx (AssistantMessage partial) s)"
    from 3 Some have "log ctx s' = (if addedPartial then butlast (log ctx ?s1) else log ctx ?s1)
                 @ [AssistantMessage msg]"
      by (intro "3.IH") simp_all
    moreover have "addedPartial" using "3.prems" Some by simp
    moreover have "butlast ((log ctx s)[length (log ctx s) - 1 := AssistantMessage partial])
                     = butlast (log ctx s)"
      by (simp add: butlast_list_update)
    ultimately show ?thesis by simp
  qed
next
  case (4 ctx resp evs partialMessage addedPartial s)
  then show ?case
    by (cases "log ctx s" rule: rev_cases)
       (auto simp: streamFinal_def Let_def split: sum.splits if_splits)
next
  case (5 ctx resp evs partialMessage addedPartial s)
  then show ?case
    by (cases "log ctx s" rule: rev_cases)
       (auto simp: streamFinal_def Let_def split: sum.splits if_splits)
qed

lemma streamAssistantResponse_log:
  assumes "wellBehaved sf" and "streamAssistantResponse c cfg sf s = (Inr msg, s')"
  shows "log c s' = log c s @ [AssistantMessage msg]"
proof -
  let ?t = "case transformContext cfg of
              None \<Rightarrow> (Inr (log c s), s) | Some t \<Rightarrow> call (t (log c s)) s"
  from assms(2) obtain msgs s1 where t: "?t = (Inr msgs, s1)"
    and r1: "andThen (call (convertToLlm cfg msgs) s1)
       (\<lambda>llmMessages s.
     andThen (case getApiKey cfg of
                None \<Rightarrow> (Inr None, s)
              | Some g \<Rightarrow> call (g (provider (model cfg))) s)
       (\<lambda>key s.
     andThen (call (sf (model cfg)
                      \<lparr>llm_systemPrompt = systemPrompt c, llm_messages = llmMessages,
                       llm_tools = tools c\<rparr>
                      \<lparr>opt_apiKey = resolveApiKey key (apiKey cfg),
                       opt_reasoning = reasoning cfg\<rparr>) s)
       (\<lambda>resp s. streamEvents c resp (stream_events resp) None False s))) = (Inr msg, s')"
    unfolding streamAssistantResponse_def by (auto elim!: andThen_cases)
  have l1: "log c s1 = log c s"
    using t by (auto simp: call_def split: option.splits prod.splits sum.splits)
  from r1 obtain llm s2 where c2: "call (convertToLlm cfg msgs) s1 = (Inr llm, s2)"
    and r2: "andThen (case getApiKey cfg of
                None \<Rightarrow> (Inr None, s2)
              | Some g \<Rightarrow> call (g (provider (model cfg))) s2)
       (\<lambda>key s.
     andThen (call (sf (model cfg)
                      \<lparr>llm_systemPrompt = systemPrompt c, llm_messages = llm,
                       llm_tools = tools c\<rparr>
                      \<lparr>opt_apiKey = resolveApiKey key (apiKey cfg),
                       opt_reasoning = reasoning cfg\<rparr>) s)
       (\<lambda>resp s. streamEvents c resp (stream_events resp) None False s)) = (Inr msg, s')"
    by (auto elim!: andThen_cases)
  have l2: "log c s2 = log c s1"
    using c2 by (auto simp: call_def split: prod.splits sum.splits)
  from r2 obtain key s3 where k3: "(case getApiKey cfg of
                None \<Rightarrow> (Inr None, s2)
              | Some g \<Rightarrow> call (g (provider (model cfg))) s2) = (Inr key, s3)"
    and r3: "andThen (call (sf (model cfg)
                      \<lparr>llm_systemPrompt = systemPrompt c, llm_messages = llm,
                       llm_tools = tools c\<rparr>
                      \<lparr>opt_apiKey = resolveApiKey key (apiKey cfg),
                       opt_reasoning = reasoning cfg\<rparr>) s3)
       (\<lambda>resp s. streamEvents c resp (stream_events resp) None False s) = (Inr msg, s')"
    by (auto elim!: andThen_cases)
  have l3: "log c s3 = log c s2"
    using k3 by (auto simp: call_def split: option.splits prod.splits sum.splits)
  from r3 obtain resp s4 where c4: "call (sf (model cfg)
                      \<lparr>llm_systemPrompt = systemPrompt c, llm_messages = llm,
                       llm_tools = tools c\<rparr>
                      \<lparr>opt_apiKey = resolveApiKey key (apiKey cfg),
                       opt_reasoning = reasoning cfg\<rparr>) s3 = (Inr resp, s4)"
    and r4: "streamEvents c resp (stream_events resp) None False s4 = (Inr msg, s')"
    by (auto elim!: andThen_cases)
  have l4: "log c s4 = log c s3"
    using c4 by (auto simp: call_def split: prod.splits sum.splits)
  obtain w4 where "sf (model cfg)
                      \<lparr>llm_systemPrompt = systemPrompt c, llm_messages = llm,
                       llm_tools = tools c\<rparr>
                      \<lparr>opt_apiKey = resolveApiKey key (apiKey cfg),
                       opt_reasoning = reasoning cfg\<rparr> (world s3) = (Inr resp, w4)"
    using c4 by (auto simp: call_def split: prod.splits sum.splits)
  then have tm: "terminated (stream_events resp) False"
    using assms(1) unfolding wellBehaved_def by blast
  from streamEvents_log [OF tm _ _ r4] l1 l2 l3 l4 show ?thesis by simp
qed

subsection \<open>Where pending messages come from\<close>

lemma poll_queued:
  assumes "poll cb s = (Inr p, s')"
  shows "queued cb p" and "newMessages s' = newMessages s \<and> cells s' = cells s"
  using assms
  by (auto simp: poll_def call_def queued_def split: option.splits prod.splits sum.splits)

lemma steering_origin:
  assumes "executeToolCallsFrom run c cfg sf tcs results s = (Inr (res, st), s')"
  shows "\<forall>ms. st = Some ms \<longrightarrow> queued (getSteeringMessages cfg) ms"
  using assms
proof (induction tcs arbitrary: results s)
  case Nil
  then show ?case by simp
next
  case (Cons tc rest)
  obtain tr s1 where d: "dispatch c tc s = (tr, s1)" by (metis surj_pair)
  from Cons.prems d have
    "andThen (handleAdvisors run (advisors cfg) c tc tr sf s1)
            (\<lambda>_ s.
               case getSteeringMessages cfg of
                 None \<Rightarrow> executeToolCallsFrom run c cfg sf rest (results @ [tr]) s
               | Some g \<Rightarrow>
                   andThen (call g s)
                     (\<lambda>steering s.
                        if steering \<noteq> [] then
                          (case skipRemaining c rest (results @ [tr]) s of
                             (results', s') \<Rightarrow> (Inr (results', Some steering), s'))
                        else executeToolCallsFrom run c cfg sf rest (results @ [tr]) s))
       = (Inr (res, st), s')"
    by simp
  then obtain u s2 where
    k: "(case getSteeringMessages cfg of
                 None \<Rightarrow> executeToolCallsFrom run c cfg sf rest (results @ [tr]) s2
               | Some g \<Rightarrow>
                   andThen (call g s2)
                     (\<lambda>steering s.
                        if steering \<noteq> [] then
                          (case skipRemaining c rest (results @ [tr]) s of
                             (results', s') \<Rightarrow> (Inr (results', Some steering), s'))
                        else executeToolCallsFrom run c cfg sf rest (results @ [tr]) s))
       = (Inr (res, st), s')"
    by (auto elim!: andThen_cases)
  show ?case
  proof (cases "getSteeringMessages cfg")
    case None
    with k Cons.IH show ?thesis by simp
  next
    case (Some g)
    with k obtain steering s3 where g: "call g s2 = (Inr steering, s3)"
      and k2: "(if steering \<noteq> [] then
                          (case skipRemaining c rest (results @ [tr]) s3 of
                             (results', s') \<Rightarrow> (Inr (results', Some steering), s'))
                        else executeToolCallsFrom run c cfg sf rest (results @ [tr]) s3)
               = (Inr (res, st), s')"
      by (auto elim!: andThen_cases)
    show ?thesis
    proof (cases "steering = []")
      case True
      with k2 Cons.IH show ?thesis by simp
    next
      case False
      with k2 have "st = Some steering" by (auto split: prod.splits)
      moreover have "queued (Some g) steering"
        using g by (auto simp: queued_def call_def split: prod.splits sum.splits)
      ultimately show ?thesis using Some by simp
    qed
  qed
qed

lemma nextPending_result:
  assumes "nextPending cfg st s = (Inr (p, st'), s')"
    and "\<forall>ms. st = Some ms \<longrightarrow> queued (getSteeringMessages cfg) ms"
  shows "queued (getSteeringMessages cfg) p"
    and "\<forall>ms. st' = Some ms \<longrightarrow> queued (getSteeringMessages cfg) ms"
    and "newMessages s' = newMessages s \<and> cells s' = cells s"
proof -
  show "queued (getSteeringMessages cfg) p"
    using assms
    by (auto simp: nextPending_def split: if_splits option.splits
        elim!: andThen_cases dest: poll_queued(1))
  show "\<forall>ms. st' = Some ms \<longrightarrow> queued (getSteeringMessages cfg) ms"
    using assms
    by (auto simp: nextPending_def split: if_splits option.splits elim!: andThen_cases)
  show "newMessages s' = newMessages s \<and> cells s' = cells s"
    using assms(1)
    by (auto simp: nextPending_def split: if_splits option.splits
        elim!: andThen_cases dest!: poll_queued(2))
qed

lemma extends_by_same:
  "newMessages s' = newMessages s \<Longrightarrow> cells s' = cells s \<Longrightarrow> extends_by c [] s s'"
  by (simp add: extends_by_def log_def)

lemma afterResponse_appends:
  assumes "afterResponse run c cfg sf st msg s = (Inr x, s')"
    and "\<forall>ms. st = Some ms \<longrightarrow> queued (getSteeringMessages cfg) ms"
  shows "\<exists>d. extends_by c d s s' \<and> (\<forall>m\<in>set d. fromTools m) \<and> turn_shape cfg msg d x"
proof (cases "stopReason msg = ErrorStop \<or> stopReason msg = Aborted")
  case True
  then have "x = TurnReturned" "s' = finish (push (turn_end (AssistantMessage msg) []) s)"
    using assms(1) by (auto simp: afterResponse_def)
  then have "extends_by c [] s s'"
    by (simp add: extends_by_def finish_def endStream_def log_def)
  then show ?thesis
    using True \<open>x = TurnReturned\<close> by (intro exI [of _ "[]"]) (simp add: turn_shape_def)
next
  case False
  let ?tools = "if toolCallsOf (am_content msg) \<noteq> [] then executeToolCalls run c msg cfg sf s
                else (Inr ([], st), s)"
  from assms(1) False obtain te s1 where t: "?tools = (Inr te, s1)"
    and r: "andThen (nextPending cfg (snd te) (push (turn_end (AssistantMessage msg) (fst te)) s1))
               (\<lambda>next s. (Inr (TurnNext (toolCallsOf (am_content msg) \<noteq> []) (fst next)
                                  (snd next)), s)) = (Inr x, s')"
    unfolding afterResponse_def by (auto elim!: andThen_cases)
  obtain res st1 where te: "te = (res, st1)" by (cases te)
  have "\<exists>d. extends_by c d s s1 \<and> (\<forall>m\<in>set d. fromTools m) \<and>
          resultIds d = map tc_id (toolCallsOf (am_content msg))"
  proof (cases "toolCallsOf (am_content msg) = []")
    case True
    with t show ?thesis by (intro exI [of _ "[]"]) simp
  next
    case False
    with t have e: "executeToolCallsFrom run c cfg sf (toolCallsOf (am_content msg)) [] s
                      = (Inr te, s1)"
      by (simp add: executeToolCalls_def)
    from executeToolCallsFrom_extends [of c s run cfg sf "toolCallsOf (am_content msg)" "[]"]
    show ?thesis using e by auto
  qed
  then obtain d where d: "extends_by c d s s1" "\<forall>m\<in>set d. fromTools m"
    "resultIds d = map tc_id (toolCallsOf (am_content msg))"
    by blast
  have st1: "\<forall>ms. st1 = Some ms \<longrightarrow> queued (getSteeringMessages cfg) ms"
  proof (cases "toolCallsOf (am_content msg) = []")
    case True
    with t te assms(2) show ?thesis by simp
  next
    case False
    with t te have "executeToolCallsFrom run c cfg sf (toolCallsOf (am_content msg)) [] s
                      = (Inr (res, st1), s1)"
      by (simp add: executeToolCalls_def)
    then show ?thesis by (rule steering_origin)
  qed
  from r te obtain p st' where
    n: "nextPending cfg st1 (push (turn_end (AssistantMessage msg) res) s1) = (Inr (p, st'), s')"
    and x: "x = TurnNext (toolCallsOf (am_content msg) \<noteq> []) p st'"
    by (auto elim!: andThen_cases)
  from nextPending_result [OF n st1] have
    q: "queued (getSteeringMessages cfg) p"
       "\<forall>ms. st' = Some ms \<longrightarrow> queued (getSteeringMessages cfg) ms"
    and same: "newMessages s' = newMessages s1" "cells s' = cells s1"
    by simp_all
  have "extends_by c d s s'"
    using d(1) same by (simp add: extends_by_def log_def)
  then show ?thesis
    using d(2,3) q x False by (intro exI [of _ d]) (simp add: turn_shape_def)
qed

lemma turn_appends:
  assumes "turn run c cfg sf ft pending st s = (Inr x, s')"
    and "\<forall>ms. st = Some ms \<longrightarrow> queued (getSteeringMessages cfg) ms"
  shows "\<exists>msg d. newMessages s' = newMessages s @ pending @ AssistantMessage msg # d \<and>
           (wellBehaved sf \<longrightarrow> log c s' = log c s @ pending @ AssistantMessage msg # d) \<and>
           (\<forall>m\<in>set d. fromTools m) \<and> turn_shape cfg msg d x"
proof -
  let ?s0 = "injectPending c pending (if \<not> ft then push turn_start s else s)"
  have e0: "extends_by c pending s ?s0"
    using injectPending_extends [of c pending "if \<not> ft then push turn_start s else s"]
    by (simp add: extends_by_def)
  from assms(1) obtain msg s1 where sar: "streamAssistantResponse c cfg sf ?s0 = (Inr msg, s1)"
    and ar: "afterResponse run c cfg sf st msg (new_push (AssistantMessage msg) s1) = (Inr x, s')"
    unfolding turn_def by (auto elim!: andThen_cases)
  have k: "keeps c ?s0 s1"
    using keeps_streamAssistantResponse [of c ?s0 cfg sf] sar by simp
  from afterResponse_appends [OF ar assms(2)] obtain d where
    d: "extends_by c d (new_push (AssistantMessage msg) s1) s'" "\<forall>m\<in>set d. fromTools m"
       "turn_shape cfg msg d x"
    by blast
  have nm: "newMessages s' = newMessages s @ pending @ AssistantMessage msg # d"
    using e0 k d(1) by (simp add: extends_by_def keeps_def)
  have lg: "log c s' = log c s @ pending @ AssistantMessage msg # d" if "wellBehaved sf"
    using streamAssistantResponse_log [OF that sar] e0 d(1) by (simp add: extends_by_def)
  show ?thesis using nm lg d(2,3) by blast
qed

lemma framed_refl [simp]: "framed c s s"
  by (simp add: framed_def)

lemma framed_trans: "framed c s s1 \<Longrightarrow> framed c s1 s2 \<Longrightarrow> framed c s s2"
  by (simp add: framed_def)

lemma framed_same: "cells s' = cells s \<Longrightarrow> framed c s s'"
  by (simp add: framed_def)

lemma framed_keeps: "keeps c s s' \<Longrightarrow> framed c s s'"
  by (simp add: framed_def keeps_def)

lemma framed_extends: "extends_by c d s s' \<Longrightarrow> framed c s s'"
  by (simp add: framed_def extends_by_def)

lemma framed_andThen:
  assumes "framed c s (snd r)" and "\<And>a s1. framed c s1 (snd (k a s1))"
  shows "framed c s (snd (andThen r k))"
proof (cases r)
  case (Pair x s1)
  then show ?thesis
    using assms by (cases x) (auto intro: framed_trans)
qed

lemma framed_poll: "framed c s (snd (poll g s))"
  by (cases g) (simp_all add: poll_def call_state framed_same)

lemma framed_nextPending: "framed c s (snd (nextPending cfg st s))"
  unfolding nextPending_def
  by (auto intro!: framed_andThen framed_poll)

lemma framed_executeToolCalls: "framed c s (snd (executeToolCalls run c msg cfg sf s))"
  using executeToolCallsFrom_extends [of c s run cfg sf "toolCallsOf (am_content msg)" "[]"]
  by (auto simp: executeToolCalls_def intro: framed_extends)

lemma framed_afterResponse: "framed c s (snd (afterResponse run c cfg sf st msg s))"
proof (cases "stopReason msg = ErrorStop \<or> stopReason msg = Aborted")
  case True
  then show ?thesis
    by (simp add: afterResponse_def finish_def endStream_def framed_same)
next
  case False
  have "framed c s1 (snd (nextPending cfg st1 (push e s1)))" for s1 :: "'a run_state" and st1 e
    using framed_nextPending [of c "push e s1" cfg st1] by (simp add: framed_def)
  then show ?thesis
    using False unfolding afterResponse_def
    by (auto intro!: framed_andThen framed_executeToolCalls)
qed

lemma framed_turn: "framed c s (snd (turn run c cfg sf ft p st s))"
proof -
  let ?s0 = "injectPending c p (if \<not> ft then push turn_start s else s)"
  have "framed c s ?s0"
    using injectPending_extends [of c p "if \<not> ft then push turn_start s else s"]
    by (simp add: framed_def extends_by_def)
  moreover have "framed c ?s0 (snd (streamAssistantResponse c cfg sf ?s0))"
    by (intro framed_keeps keeps_streamAssistantResponse)
  ultimately have f1: "framed c s (snd (streamAssistantResponse c cfg sf ?s0))"
    by (rule framed_trans)
  have f2: "framed c s1 (snd (afterResponse run c cfg sf st msg (new_push (AssistantMessage msg) s1)))"
    for msg and s1 :: "'a run_state"
    using framed_afterResponse [of c "new_push (AssistantMessage msg) s1" run cfg sf st msg]
    by (simp add: framed_def)
  show ?thesis
    unfolding turn_def using f1 f2 by (rule framed_andThen)
qed

lemma framed_innerLoop: "framed c s (snd (innerLoop fuel run c cfg sf ft h p st s))"
proof (induction fuel arbitrary: ft h p st s)
  case 0
  then show ?case by simp
next
  case (Suc n)
  show ?case
  proof (cases "h \<or> p \<noteq> []")
    case False
    then show ?thesis by simp
  next
    case True
    have "framed c s (snd (andThen (turn run c cfg sf ft p st s)
          (\<lambda>t s.
             case t of
               TurnReturned \<Rightarrow> (Inr Returned, s)
             | TurnNext hasMore pending steering \<Rightarrow>
                 innerLoop n run c cfg sf False hasMore pending steering s)))"
    proof (intro framed_andThen framed_turn)
      fix t :: turn_exit and s1 :: "'a run_state"
      show "framed c s1 (snd (case t of
               TurnReturned \<Rightarrow> (Inr Returned, s1)
             | TurnNext hasMore pending steering \<Rightarrow>
                 innerLoop n run c cfg sf False hasMore pending steering s1))"
        using Suc.IH by (cases t) simp_all
    qed
    with True show ?thesis by simp
  qed
qed

lemma framed_outerLoop: "framed c s (snd (outerLoop fuel run c cfg sf ft p s))"
proof (induction fuel arbitrary: ft p s)
  case 0
  then show ?case by simp
next
  case (Suc n)
  show ?case
    unfolding outerLoop.simps
  proof (intro framed_andThen framed_innerLoop)
    fix x :: inner_exit and s1 :: "'a run_state"
    have "framed c s1 (snd (andThen (poll (getFollowUpMessages cfg) s1)
                (\<lambda>followUpMessages s.
                   if followUpMessages \<noteq> [] then
                     outerLoop n run c cfg sf ft' followUpMessages s
                   else (Inr (), finish s))))" for ft'
      using Suc.IH
      by (auto intro!: framed_andThen framed_poll simp: finish_def endStream_def framed_same)
    then show "framed c s1 (snd (case x of
            Returned \<Rightarrow> (Inr (), s1)
          | LoopExit firstTurn' pendingMessages' \<Rightarrow>
              andThen (poll (getFollowUpMessages cfg) s1)
                (\<lambda>followUpMessages s.
                   if followUpMessages \<noteq> [] then
                     outerLoop n run c cfg sf firstTurn' followUpMessages s
                   else (Inr (), finish s))))"
      by (cases x) simp_all
  qed
qed

lemma framed_runLoop: "framed c s (snd (runLoop fuel run c cfg sf s))"
  unfolding runLoop_def by (intro framed_andThen framed_poll framed_outerLoop)

lemma innerLoop_log:
  assumes "wellBehaved sf"
  shows "log c s = base @ newMessages s \<Longrightarrow>
         \<forall>ms. st = Some ms \<longrightarrow> queued (getSteeringMessages cfg) ms \<Longrightarrow>
         innerLoop fuel run c cfg sf ft h p st s = (Inr x, s') \<Longrightarrow>
         log c s' = base @ newMessages s'"
proof (induction fuel arbitrary: ft h p st s)
  case 0
  then show ?case by (auto split: if_splits)
next
  case (Suc n)
  show ?case
  proof (cases "h \<or> p \<noteq> []")
    case False
    with Suc.prems show ?thesis by auto
  next
    case True
    with Suc.prems(3) obtain t s1 where t: "turn run c cfg sf ft p st s = (Inr t, s1)"
      and k: "(case t of
               TurnReturned \<Rightarrow> (Inr Returned, s1)
             | TurnNext hasMore pending steering \<Rightarrow>
                 innerLoop n run c cfg sf False hasMore pending steering s1) = (Inr x, s')"
      by (auto elim!: andThen_cases)
    from turn_appends [OF t Suc.prems(2)] assms obtain msg d where
      nm: "newMessages s1 = newMessages s @ p @ AssistantMessage msg # d"
      and lg: "log c s1 = log c s @ p @ AssistantMessage msg # d"
      and sh: "turn_shape cfg msg d t"
      by blast
    have ok1: "log c s1 = base @ newMessages s1"
      using nm lg Suc.prems(1) by simp
    show ?thesis
    proof (cases t)
      case TurnReturned
      with k ok1 show ?thesis by simp
    next
      case (TurnNext h' p' st')
      with sh have "\<forall>ms. st' = Some ms \<longrightarrow> queued (getSteeringMessages cfg) ms"
        by (simp add: turn_shape_def)
      from Suc.IH [OF ok1 this] k TurnNext show ?thesis by simp
    qed
  qed
qed

lemma outerLoop_log:
  assumes "wellBehaved sf"
  shows "log c s = base @ newMessages s \<Longrightarrow>
         outerLoop fuel run c cfg sf ft p s = (Inr (), s') \<Longrightarrow>
         log c s' = base @ newMessages s'"
proof (induction fuel arbitrary: ft p s)
  case 0
  then show ?case by simp
next
  case (Suc n)
  from Suc.prems(2) obtain x s1 where
    i: "innerLoop (Suc n) run c cfg sf ft True p None s = (Inr x, s1)"
    and k: "(case x of
            Returned \<Rightarrow> (Inr (), s1)
          | LoopExit firstTurn' pendingMessages' \<Rightarrow>
              andThen (poll (getFollowUpMessages cfg) s1)
                (\<lambda>followUpMessages s.
                   if followUpMessages \<noteq> [] then
                     outerLoop n run c cfg sf firstTurn' followUpMessages s
                   else (Inr (), finish s))) = (Inr (), s')"
    by (auto elim!: andThen_cases simp del: innerLoop.simps)
  have ok1: "log c s1 = base @ newMessages s1"
    using innerLoop_log [OF assms Suc.prems(1) _ i] by simp
  show ?case
  proof (cases x)
    case Returned
    with k ok1 show ?thesis by simp
  next
    case (LoopExit ft' p')
    with k obtain f s2 where f: "poll (getFollowUpMessages cfg) s1 = (Inr f, s2)"
      and k2: "(if f \<noteq> [] then outerLoop n run c cfg sf ft' f s2 else (Inr (), finish s2))
                = (Inr (), s')"
      by (auto elim!: andThen_cases)
    from poll_queued(2) [OF f] have ok2: "log c s2 = base @ newMessages s2"
      using ok1 by (simp add: log_def)
    show ?thesis
    proof (cases "f = []")
      case True
      with k2 ok2 show ?thesis by (auto simp: finish_def endStream_def log_def)
    next
      case False
      with k2 Suc.IH [OF ok2] show ?thesis by simp
    qed
  qed
qed

lemma runLoop_log:
  assumes "wellBehaved sf" and "log c s = base @ newMessages s"
    and "runLoop fuel run c cfg sf s = (Inr (), s')"
  shows "log c s' = base @ newMessages s'"
proof -
  from assms(3) obtain p s1 where p: "poll (getSteeringMessages cfg) s = (Inr p, s1)"
    and o: "outerLoop fuel run c cfg sf True p s1 = (Inr (), s')"
    unfolding runLoop_def by (auto elim!: andThen_cases)
  from poll_queued(2) [OF p] have "log c s1 = base @ newMessages s1"
    using assms(2) by (simp add: log_def)
  from outerLoop_log [OF assms(1) this o] show ?thesis .
qed










lemma ends_events_prefix:
  assumes "ends b s s'" and "sealed s = None"
  shows "\<exists>evs. events s' = events s @ evs"
  using assms by (cases b) (auto simp: ends_def finished_def quiet_def)

text \<open>
  C6. The continue entry throws before any stream exists: on an empty log with the message
  "Cannot continue: no messages in context", on a log that ends with an assistant message
  with "Cannot continue from message role: assistant". Otherwise it creates the stream and
  its task starts with \<open>agent_start\<close> and \<open>turn_start\<close>.
\<close>

theorem continue_entry_guard:
  "(cells m (messages context) = [] \<longrightarrow>
      agentLoopContinue fuel context config streamFn m
        = Inl (ErrorObject ''Cannot continue: no messages in context'')) \<and>
   (cells m (messages context) \<noteq> [] \<and> role (last (cells m (messages context))) = RoleAssistant \<longrightarrow>
      agentLoopContinue fuel context config streamFn m
        = Inl (ErrorObject ''Cannot continue from message role: assistant'')) \<and>
   (cells m (messages context) \<noteq> [] \<and> role (last (cells m (messages context))) \<noteq> RoleAssistant \<longrightarrow>
      (\<exists>r evs. agentLoopContinue fuel context config streamFn m = Inr r \<and>
           events (snd r) = agent_start # turn_start # evs))"
proof -
  let ?s1 = "push turn_start (push agent_start (createAgentStream m))"
  have s1: "sealed ?s1 = None" "events ?s1 = [agent_start, turn_start]"
    by (simp_all add: createAgentStream_def events_push)
  obtain evs where
    "events (snd (runLoop fuel (agentLoop fuel) context config streamFn ?s1)) = events ?s1 @ evs"
    using ends_events_prefix [OF runLoop_ends s1(1)] by blast
  then show ?thesis
    using s1(2) by (simp add: agentLoopContinue_def Let_def)
qed

theorem continue_entry_guard_witness:
  "agentLoopContinue 1 demoContext demoConfig demoStream demoMachine
     = Inl (ErrorObject ''Cannot continue: no messages in context'') \<and>
   agentLoopContinue 1 demoContext demoConfig demoStream assistantMachine
     = Inl (ErrorObject ''Cannot continue from message role: assistant'') \<and>
   (\<exists>r evs. agentLoopContinue 1 demoContext demoConfig demoStream userMachine = Inr r \<and>
        events (snd r) = agent_start # turn_start # evs)"
  using continue_entry_guard [of demoMachine demoContext 1 demoConfig demoStream]
    continue_entry_guard [of assistantMachine demoContext 1 demoConfig demoStream]
    continue_entry_guard [of userMachine demoContext 1 demoConfig demoStream]
  by (simp add: demoMachine_def assistantMachine_def userMachine_def demoContext_def)


text \<open>
  C5. When the streamed assistant message has \<open>stopReason\<close> error or aborted, the turn
  pushes the message to \<open>newMessages\<close>, emits \<open>turn_end\<close> with no tool results and
  \<open>agent_end\<close>, seals the stream and returns: the inner loop is left by \<open>return\<close>, the
  outer loop ends the run. Nothing else of the state changes after the response, so no
  tool ran.
\<close>

theorem error_or_aborted_ends_run:
  assumes "streamAssistantResponse context config streamFn
             (injectPending context pendingMessages
                (if \<not> firstTurn then push turn_start s else s)) = (Inr msg, s1)"
    and "stopReason msg = ErrorStop \<or> stopReason msg = Aborted"
    and "sealed s = None"
  shows "(hasMoreToolCalls \<or> pendingMessages \<noteq> [] \<longrightarrow>
          innerLoop (Suc n) run context config streamFn firstTurn hasMoreToolCalls
            pendingMessages steeringAfterTools s
          = (Inr Returned,
             s1\<lparr>events := events s1 @ [turn_end (AssistantMessage msg) [],
                                        agent_end (newMessages s1 @ [AssistantMessage msg])],
                sealed := Some (newMessages s1 @ [AssistantMessage msg]),
                newMessages := newMessages s1 @ [AssistantMessage msg]\<rparr>)) \<and>
         outerLoop (Suc n) run context config streamFn firstTurn pendingMessages s
          = (Inr (),
             s1\<lparr>events := events s1 @ [turn_end (AssistantMessage msg) [],
                                        agent_end (newMessages s1 @ [AssistantMessage msg])],
                sealed := Some (newMessages s1 @ [AssistantMessage msg]),
                newMessages := newMessages s1 @ [AssistantMessage msg]\<rparr>)"
proof -
  let ?s0 = "injectPending context pendingMessages (if \<not> firstTurn then push turn_start s else s)"
  have "sealed ?s0 = None" using assms(3) by (simp add: sealed_injectPending)
  then have open1: "sealed s1 = None"
    using sealed_streamAssistantResponse [of "context" config streamFn ?s0] assms(1) by simp
  have t: "turn run context config streamFn firstTurn pendingMessages st s
        = (Inr TurnReturned,
             s1\<lparr>events := events s1 @ [turn_end (AssistantMessage msg) [],
                                        agent_end (newMessages s1 @ [AssistantMessage msg])],
                sealed := Some (newMessages s1 @ [AssistantMessage msg]),
                newMessages := newMessages s1 @ [AssistantMessage msg]\<rparr>)" for st
    using assms(1,2) open1
    by (auto simp: turn_def afterResponse_def finish_def endStream_def push_def new_push_def)
  show ?thesis by (simp add: t)
qed

theorem error_or_aborted_ends_run_witness:
  "stopReason abortedMsg = Aborted \<and>
   fst (innerLoop 1 (agentLoop 0) demoContext demoConfig abortedStream True True [] None
          (createAgentStream demoMachine)) = Inr Returned \<and>
   fst (outerLoop 1 (agentLoop 0) demoContext demoConfig abortedStream True []
          (createAgentStream demoMachine)) = Inr () \<and>
   events (snd (outerLoop 1 (agentLoop 0) demoContext demoConfig abortedStream True []
          (createAgentStream demoMachine)))
     = [message_start (AssistantMessage (Assistant [] Stop)),
        message_end (AssistantMessage abortedMsg),
        turn_end (AssistantMessage abortedMsg) [],
        agent_end [AssistantMessage abortedMsg]] \<and>
   world (snd (outerLoop 1 (agentLoop 0) demoContext demoConfig abortedStream True []
          (createAgentStream demoMachine))) = (0, False)"
proof -
  let ?s = "createAgentStream demoMachine"
  let ?r = "streamAssistantResponse demoContext demoConfig abortedStream
              (injectPending demoContext [] (if \<not> True then push turn_start ?s else ?s))"
  have f: "fst ?r = Inr abortedMsg"
    by (simp add: exec_simps state_simps demo_defs abortedStream_def Let_def split del: if_split)
  have e: "events (snd ?r) = [message_start (AssistantMessage (Assistant [] Stop)),
        message_end (AssistantMessage abortedMsg)]"
    "newMessages (snd ?r) = []" "world (snd ?r) = (0, False)"
    by (simp_all add: exec_simps state_simps demo_defs abortedStream_def Let_def
          split del: if_split)
  have "?r = (Inr abortedMsg, snd ?r)" using f by (simp add: prod_eq_iff)
  from error_or_aborted_ends_run [OF this, where n = 0 and run = "agentLoop 0"]
  show ?thesis using e by (simp add: abortedMsg_def createAgentStream_def)
qed

lemma no_tools_turn:
  assumes "getSteeringMessages cfg = None"
    and "streamAssistantResponse c cfg sf
           (injectPending c pending (if \<not> ft then push turn_start s else s)) = (Inr msg, s1)"
    and "toolCallsOf (am_content msg) = []"
    and "stopReason msg \<noteq> ErrorStop" "stopReason msg \<noteq> Aborted"
    and "sealed s = None"
  shows "turn run c cfg sf ft pending None s
         = (Inr (TurnNext False [] None),
            s1\<lparr>events := events s1 @ [turn_end (AssistantMessage msg) []],
               newMessages := newMessages s1 @ [AssistantMessage msg]\<rparr>)"
proof -
  let ?s0 = "injectPending c pending (if \<not> ft then push turn_start s else s)"
  have "sealed ?s0 = None" using assms(6) by (simp add: sealed_injectPending)
  then have "sealed s1 = None"
    using sealed_streamAssistantResponse [of c cfg sf ?s0] assms(2) by simp
  then show ?thesis
    using assms(1-5)
    by (simp add: turn_def afterResponse_def nextPending_def poll_def push_def new_push_def)
qed

text \<open>
  C10. The configuration \<open>runAdvisor\<close> builds for the nested run takes the advisor's
  model, \<open>convertToLlm\<close>, nested advisors, reasoning level and API-key settings, and has no
  \<open>getSteeringMessages\<close>, \<open>getFollowUpMessages\<close> or \<open>transformContext\<close>; \<open>runAdvisor\<close> is not
  given the parent's configuration, and what it does depends on the nested runner only at
  that configuration. A run under it ends with the turn in which the assistant answers
  without tool calls: no poll takes place (the state after the response only gains
  \<open>turn_end\<close>, \<open>agent_end\<close> and the seal).
\<close>

theorem advisor_run_configuration:
  "model (advisorLoopConfig advisor) = adv_model_of advisor \<and>
   convertToLlm (advisorLoopConfig advisor)
     = (case adv_convertToLlm advisor of
          Some cv \<Rightarrow> cv
        | None \<Rightarrow> (\<lambda>ms w. (Inr (defaultAdvisorConvertToLlm ms), w))) \<and>
   advisors (advisorLoopConfig advisor) = adv_advisors advisor \<and>
   reasoning (advisorLoopConfig advisor)
     = (case thinkingLevel advisor of
          None \<Rightarrow> None
        | Some l \<Rightarrow> if l \<noteq> ThinkOff then Some l else None) \<and>
   apiKey (advisorLoopConfig advisor) = adv_apiKey advisor \<and>
   getApiKey (advisorLoopConfig advisor) = adv_getApiKey advisor \<and>
   getSteeringMessages (advisorLoopConfig advisor) = None \<and>
   getFollowUpMessages (advisorLoopConfig advisor) = None \<and>
   transformContext (advisorLoopConfig advisor) = None \<and>
   ((\<forall>p c m. run p c (advisorLoopConfig advisor) streamFn m
               = run' p c (advisorLoopConfig advisor) streamFn m) \<longrightarrow>
      runAdvisor run advisor params streamFn s = runAdvisor run' advisor params streamFn s) \<and>
   (streamAssistantResponse ctx (advisorLoopConfig advisor) streamFn
      (injectPending ctx pendingMessages
         (if \<not> firstTurn then push turn_start s else s)) = (Inr msg, s1) \<and>
    toolCallsOf (am_content msg) = [] \<and>
    stopReason msg \<noteq> ErrorStop \<and> stopReason msg \<noteq> Aborted \<and> sealed s = None \<longrightarrow>
      (hasMoreToolCalls \<or> pendingMessages \<noteq> [] \<longrightarrow>
         innerLoop (Suc n) nested ctx (advisorLoopConfig advisor) streamFn firstTurn
           hasMoreToolCalls pendingMessages None s
         = (Inr (LoopExit False []),
            s1\<lparr>events := events s1 @ [turn_end (AssistantMessage msg) []],
               newMessages := newMessages s1 @ [AssistantMessage msg]\<rparr>)) \<and>
      outerLoop (Suc n) nested ctx (advisorLoopConfig advisor) streamFn firstTurn
        pendingMessages s
      = (Inr (),
         s1\<lparr>events := events s1 @ [turn_end (AssistantMessage msg) [],
                                    agent_end (newMessages s1 @ [AssistantMessage msg])],
            sealed := Some (newMessages s1 @ [AssistantMessage msg]),
            newMessages := newMessages s1 @ [AssistantMessage msg]\<rparr>))"
proof -
  let ?cfg = "advisorLoopConfig advisor"
  have fields: "getSteeringMessages ?cfg = None" "getFollowUpMessages ?cfg = None"
    by (simp_all add: advisorLoopConfig_def)
  have ext: "runAdvisor run advisor params streamFn s = runAdvisor run' advisor params streamFn s"
    if "\<forall>p c m. run p c ?cfg streamFn m = run' p c ?cfg streamFn m"
    using that by (simp add: runAdvisor_def split: prod.split sum.split)
  have loops: "(hasMoreToolCalls \<or> pendingMessages \<noteq> [] \<longrightarrow>
         innerLoop (Suc n) nested ctx ?cfg streamFn firstTurn
           hasMoreToolCalls pendingMessages None s
         = (Inr (LoopExit False []),
            s1\<lparr>events := events s1 @ [turn_end (AssistantMessage msg) []],
               newMessages := newMessages s1 @ [AssistantMessage msg]\<rparr>)) \<and>
      outerLoop (Suc n) nested ctx ?cfg streamFn firstTurn pendingMessages s
      = (Inr (),
         s1\<lparr>events := events s1 @ [turn_end (AssistantMessage msg) [],
                                    agent_end (newMessages s1 @ [AssistantMessage msg])],
            sealed := Some (newMessages s1 @ [AssistantMessage msg]),
            newMessages := newMessages s1 @ [AssistantMessage msg]\<rparr>)"
    if sar: "streamAssistantResponse ctx ?cfg streamFn
      (injectPending ctx pendingMessages
         (if \<not> firstTurn then push turn_start s else s)) = (Inr msg, s1)"
      and msg: "toolCallsOf (am_content msg) = []"
        "stopReason msg \<noteq> ErrorStop" "stopReason msg \<noteq> Aborted"
      and op: "sealed s = None"
  proof -
    let ?s0 = "injectPending ctx pendingMessages (if \<not> firstTurn then push turn_start s else s)"
    have "sealed ?s0 = None" using op by (simp add: sealed_injectPending)
    then have open1: "sealed s1 = None"
      using sealed_streamAssistantResponse [of ctx ?cfg streamFn ?s0] sar by simp
    have t: "turn nested ctx ?cfg streamFn firstTurn pendingMessages None s
         = (Inr (TurnNext False [] None),
            s1\<lparr>events := events s1 @ [turn_end (AssistantMessage msg) []],
               newMessages := newMessages s1 @ [AssistantMessage msg]\<rparr>)"
      using no_tools_turn [OF fields(1) sar msg op] .
    have i: "innerLoop n nested ctx ?cfg streamFn False False [] None s2
               = (Inr (LoopExit False []), s2)" for s2
      by (cases n) simp_all
    show ?thesis
      using open1
      by (simp add: t i fields poll_def finish_def endStream_def push_def)
  qed
  show ?thesis
    using ext loops by (simp add: advisorLoopConfig_def)
qed

theorem advisor_run_configuration_witness:
  "getSteeringMessages (advisorLoopConfig demoAdvisor) = None \<and>
   getFollowUpMessages (advisorLoopConfig demoAdvisor) = None \<and>
   transformContext (advisorLoopConfig demoAdvisor) = None \<and>
   runAdvisor (agentLoop 1) demoAdvisor reviewParams demoStream (createAgentStream demoMachine)
     = runAdvisor (agentLoopWith (agentLoop 0) 1) demoAdvisor reviewParams demoStream
         (createAgentStream demoMachine) \<and>
   fst (innerLoop 1 (agentLoop 0) reviewContext (advisorLoopConfig demoAdvisor) demoStream
          True True [] None (createAgentStream demoMachine)) = Inr (LoopExit False []) \<and>
   fst (outerLoop 1 (agentLoop 0) reviewContext (advisorLoopConfig demoAdvisor) demoStream
          True [] (createAgentStream demoMachine)) = Inr () \<and>
   events (snd (outerLoop 1 (agentLoop 0) reviewContext (advisorLoopConfig demoAdvisor)
                  demoStream True [] (createAgentStream demoMachine)))
     = [message_start (AssistantMessage (Assistant [] Stop)),
        message_end (AssistantMessage looksGood),
        turn_end (AssistantMessage looksGood) [],
        agent_end [AssistantMessage looksGood]]"
proof -
  let ?s = "createAgentStream demoMachine"
  let ?cfg = "advisorLoopConfig demoAdvisor"
  let ?r = "streamAssistantResponse reviewContext ?cfg demoStream
              (injectPending reviewContext [] (if \<not> True then push turn_start ?s else ?s))"
  have f: "fst ?r = Inr looksGood"
    by (simp add: exec_simps state_simps demo_defs reviewContext_def Let_def
          split del: if_split)
  have e: "events (snd ?r) = [message_start (AssistantMessage (Assistant [] Stop)),
        message_end (AssistantMessage looksGood)]"
    "newMessages (snd ?r) = []"
    by (simp_all add: exec_simps state_simps demo_defs reviewContext_def Let_def
          split del: if_split)
  have r: "?r = (Inr looksGood, snd ?r)" using f by (simp add: prod_eq_iff)
  have m: "toolCallsOf (am_content looksGood) = []" "stopReason looksGood \<noteq> ErrorStop"
    "stopReason looksGood \<noteq> Aborted" "sealed ?s = None"
    by (simp_all add: looksGood_def createAgentStream_def)
  have x: "\<forall>p c m. agentLoop 1 p c ?cfg demoStream m
             = agentLoopWith (agentLoop 0) 1 p c ?cfg demoStream m"
    by simp
  from advisor_run_configuration [where advisor = demoAdvisor and streamFn = demoStream
      and run = "agentLoop 1" and run' = "agentLoopWith (agentLoop 0) 1"
      and params = reviewParams and s = ?s and ctx = reviewContext
      and pendingMessages = "[]" and firstTurn = True and msg = looksGood and ?s1.0 = "snd ?r"
      and hasMoreToolCalls = True and n = 0 and nested = "agentLoop 0"]
  show ?thesis using r m x e
    by (simp del: innerLoop.simps outerLoop.simps agentLoop.simps)
qed




lemma steering_next_pass:
  assumes "hasMoreToolCalls \<or> pendingMessages \<noteq> []"
    and "streamAssistantResponse ctx config streamFn
           (injectPending ctx pendingMessages (if \<not> firstTurn then push turn_start s0 else s0))
         = (Inr msg, s1)"
    and "executeToolCalls run ctx msg config streamFn (new_push (AssistantMessage msg) s1)
         = (Inr (toolResults, Some steering), s3)"
    and "toolCallsOf (am_content msg) \<noteq> []"
    and "stopReason msg \<noteq> ErrorStop" and "stopReason msg \<noteq> Aborted"
    and "steering \<noteq> []"
  shows "innerLoop (Suc (Suc n)) run ctx config streamFn firstTurn hasMoreToolCalls
           pendingMessages st s0
         = andThen (streamAssistantResponse ctx config streamFn
                      (injectPending ctx steering
                         (push turn_start (push (turn_end (AssistantMessage msg) toolResults) s3))))
             (\<lambda>msg' s.
                andThen (afterResponse run ctx config streamFn None msg'
                           (new_push (AssistantMessage msg') s))
                  (\<lambda>t s. case t of
                       TurnReturned \<Rightarrow> (Inr Returned, s)
                     | TurnNext hasMore pending steering' \<Rightarrow>
                         innerLoop n run ctx config streamFn False hasMore pending steering' s))"
proof -
  have first: "turn run ctx config streamFn firstTurn pendingMessages st s0
                 = (Inr (TurnNext True steering None),
                    push (turn_end (AssistantMessage msg) toolResults) s3)"
    using assms(2-7) by (simp add: turn_def afterResponse_def nextPending_def)
  have "innerLoop (Suc (Suc n)) run ctx config streamFn firstTurn hasMoreToolCalls
           pendingMessages st s0
        = innerLoop (Suc n) run ctx config streamFn False True steering None
            (push (turn_end (AssistantMessage msg) toolResults) s3)"
    using assms(1) first by (subst innerLoop.simps) simp
  also have "\<dots> = andThen (turn run ctx config streamFn False steering None
                              (push (turn_end (AssistantMessage msg) toolResults) s3))
                     (\<lambda>t s. case t of
                       TurnReturned \<Rightarrow> (Inr Returned, s)
                     | TurnNext hasMore pending steering' \<Rightarrow>
                         innerLoop n run ctx config streamFn False hasMore pending steering' s)"
    by (subst innerLoop.simps) simp
  also have "\<dots> = andThen (streamAssistantResponse ctx config streamFn
                      (injectPending ctx steering
                         (push turn_start (push (turn_end (AssistantMessage msg) toolResults) s3))))
             (\<lambda>msg' s.
                andThen (afterResponse run ctx config streamFn None msg'
                           (new_push (AssistantMessage msg') s))
                  (\<lambda>t s. case t of
                       TurnReturned \<Rightarrow> (Inr Returned, s)
                     | TurnNext hasMore pending steering' \<Rightarrow>
                         innerLoop n run ctx config streamFn False hasMore pending steering' s))"
    by (simp add: turn_def andThen_def split: prod.splits sum.splits)
  finally show ?thesis .
qed

lemma injectPending_events:
  assumes "sealed s = None"
  shows "events (injectPending c pending s)
           = events s @ concat (map (\<lambda>m. [message_start m, message_end m]) pending)"
proof -
  have "sealed s = None \<Longrightarrow>
        events (foldl (\<lambda>s m. new_push m (ctx_push c m (push (message_end m)
                  (push (message_start m) s)))) s pending)
          = events s @ concat (map (\<lambda>m. [message_start m, message_end m]) pending)" for s
    by (induction pending arbitrary: s) (simp_all add: events_push)
  with assms show ?thesis by (simp add: injectPending_def)
qed

lemma injectPending_world: "world (injectPending c pending s) = world s"
proof -
  have "world (foldl (\<lambda>s m. new_push m (ctx_push c m (push (message_end m)
                  (push (message_start m) s)))) s pending) = world s" for s
    by (induction pending arbitrary: s) simp_all
  then show ?thesis by (simp add: injectPending_def)
qed

text \<open>
  C2. When, after a tool result and its advisors, \<open>getSteeringMessages\<close> returns a
  non-empty list, the dispatcher returns at once: every remaining call gets the result
  \<open>skippedResult\<close> (\<open>isError\<close>, text "Skipped due to queued user message.") in the results,
  the log and \<open>newMessages\<close>; the only events are the four of each skipped call and the
  world stays as the poll left it, so no tool and no advisor ran. The steering messages
  come back with the results and become the pending messages without another poll.
  The inner loop then goes on to its next pass, which, after \<open>turn_end\<close> of this turn and
  \<open>turn_start\<close> of the next, appends exactly the steering messages to the log and to
  \<open>newMessages\<close>, with a \<open>message_start\<close> and a \<open>message_end\<close> each, and asks the
  assistant in that state.
\<close>

theorem steering_skips_remaining_calls:
  assumes "handleAdvisors run (advisors config) ctx toolCall (fst (dispatch ctx toolCall s))
             streamFn (snd (dispatch ctx toolCall s)) = (Inr (), s2)"
    and "getSteeringMessages config = Some g"
    and "g (world s2) = (Inr steering, w)"
    and "steering \<noteq> []"
    and "sealed s = None"
  shows "fst (executeToolCallsFrom run ctx config streamFn (toolCall # remainingCalls) results s)
           = Inr (results @ fst (dispatch ctx toolCall s) # map skippedResult remainingCalls,
                  Some steering) \<and>
         events (snd (executeToolCallsFrom run ctx config streamFn (toolCall # remainingCalls)
                        results s))
           = events s2 @ concat (map skipEvents remainingCalls) \<and>
         world (snd (executeToolCallsFrom run ctx config streamFn (toolCall # remainingCalls)
                       results s)) = w \<and>
         log ctx (snd (executeToolCallsFrom run ctx config streamFn (toolCall # remainingCalls)
                         results s))
           = log ctx s2 @ map (\<lambda>tc. ToolResultMessage (skippedResult tc)) remainingCalls \<and>
         newMessages (snd (executeToolCallsFrom run ctx config streamFn
                             (toolCall # remainingCalls) results s))
           = newMessages s2 @ map (\<lambda>tc. ToolResultMessage (skippedResult tc)) remainingCalls \<and>
         skippedResult tc
           = ToolResult (tc_id tc) (tc_name tc)
               [TextContent ''Skipped due to queued user message.''] ''{}'' True \<and>
         (executeToolCalls run ctx msg config streamFn s' = (Inr (toolResults, Some steering), s3) \<and>
          toolCallsOf (am_content msg) \<noteq> [] \<and>
          stopReason msg \<noteq> ErrorStop \<and> stopReason msg \<noteq> Aborted \<longrightarrow>
            afterResponse run ctx config streamFn steeringAfterTools msg s'
              = (Inr (TurnNext True steering None),
                 push (turn_end (AssistantMessage msg) toolResults) s3)) \<and>
         log ctx (injectPending ctx steering s') = log ctx s' @ steering \<and>
         newMessages (injectPending ctx steering s') = newMessages s' @ steering \<and>
         world (injectPending ctx steering s') = world s' \<and>
         (sealed s' = None \<longrightarrow>
            events (injectPending ctx steering (push turn_start s'))
              = events s' @ turn_start
                  # concat (map (\<lambda>m. [message_start m, message_end m]) steering)) \<and>
         ((hasMoreToolCalls \<or> pendingMessages \<noteq> []) \<and>
          streamAssistantResponse ctx config streamFn
            (injectPending ctx pendingMessages (if \<not> firstTurn then push turn_start t0 else t0))
            = (Inr response, t1) \<and>
          executeToolCalls run ctx response config streamFn
            (new_push (AssistantMessage response) t1) = (Inr (executed, Some steering), t3) \<and>
          toolCallsOf (am_content response) \<noteq> [] \<and>
          stopReason response \<noteq> ErrorStop \<and> stopReason response \<noteq> Aborted \<longrightarrow>
            innerLoop (Suc (Suc n)) run ctx config streamFn firstTurn hasMoreToolCalls
                pendingMessages steeringAfterTools t0
              = andThen (streamAssistantResponse ctx config streamFn
                           (injectPending ctx steering
                              (push turn_start
                                 (push (turn_end (AssistantMessage response) executed) t3))))
                  (\<lambda>reply s.
                     andThen (afterResponse run ctx config streamFn None reply
                                (new_push (AssistantMessage reply) s))
                       (\<lambda>t s. case t of
                            TurnReturned \<Rightarrow> (Inr Returned, s)
                          | TurnNext hasMore pending steering' \<Rightarrow>
                              innerLoop n run ctx config streamFn False hasMore pending
                                steering' s)))"
proof -
  obtain tr s1 where d: "dispatch ctx toolCall s = (tr, s1)" by (metis surj_pair)
  have "sealed s1 = None"
    using quiet_sealed [OF quiet_dispatch [of s ctx toolCall]] d assms(5) by simp
  then have "sealed s2 = None"
    using quiet_sealed [OF quiet_handleAdvisors [of s1 run "advisors config" ctx toolCall tr streamFn]]
      assms(1) d by simp
  then have open3: "sealed (s2\<lparr>world := w\<rparr>) = None" by simp
  let ?sk = "skipRemaining ctx remainingCalls (results @ [tr]) (s2\<lparr>world := w\<rparr>)"
  have run: "executeToolCallsFrom run ctx config streamFn (toolCall # remainingCalls) results s
          = (Inr (fst ?sk, Some steering), snd ?sk)"
    using assms(1-4) d by (simp add: call_def split: prod.splits)
  have ext: "extends_by ctx (map (\<lambda>tc. ToolResultMessage (skippedResult tc)) remainingCalls)
               (s2\<lparr>world := w\<rparr>) (snd ?sk)"
    by (rule skipRemaining_extends)
  have old:
    "fst (executeToolCallsFrom run ctx config streamFn (toolCall # remainingCalls) results s)
       = Inr (results @ fst (dispatch ctx toolCall s) # map skippedResult remainingCalls,
              Some steering) \<and>
     events (snd (executeToolCallsFrom run ctx config streamFn (toolCall # remainingCalls)
                    results s))
       = events s2 @ concat (map skipEvents remainingCalls) \<and>
     world (snd (executeToolCallsFrom run ctx config streamFn (toolCall # remainingCalls)
                   results s)) = w \<and>
     log ctx (snd (executeToolCallsFrom run ctx config streamFn (toolCall # remainingCalls)
                     results s))
       = log ctx s2 @ map (\<lambda>tc. ToolResultMessage (skippedResult tc)) remainingCalls \<and>
     newMessages (snd (executeToolCallsFrom run ctx config streamFn
                         (toolCall # remainingCalls) results s))
       = newMessages s2 @ map (\<lambda>tc. ToolResultMessage (skippedResult tc)) remainingCalls \<and>
     skippedResult tc
       = ToolResult (tc_id tc) (tc_name tc)
           [TextContent ''Skipped due to queued user message.''] ''{}'' True \<and>
     (executeToolCalls run ctx msg config streamFn s' = (Inr (toolResults, Some steering), s3) \<and>
      toolCallsOf (am_content msg) \<noteq> [] \<and>
      stopReason msg \<noteq> ErrorStop \<and> stopReason msg \<noteq> Aborted \<longrightarrow>
        afterResponse run ctx config streamFn steeringAfterTools msg s'
          = (Inr (TurnNext True steering None),
             push (turn_end (AssistantMessage msg) toolResults) s3)) \<and>
     log ctx (injectPending ctx steering s') = log ctx s' @ steering"
    using skipRemaining_state [OF open3, of ctx remainingCalls "results @ [tr]"]
      skipRemaining_results [of ctx remainingCalls "results @ [tr]" "s2\<lparr>world := w\<rparr>"]
      ext d assms(4) injectPending_extends [of ctx steering s']
    by (simp add: run extends_by_def skippedResult_def nextPending_def afterResponse_def
          del: executeToolCallsFrom.simps)
  have new1: "newMessages (injectPending ctx steering s') = newMessages s' @ steering"
    using injectPending_extends [of ctx steering s'] by (simp add: extends_by_def)
  have new2: "world (injectPending ctx steering s') = world s'"
    by (rule injectPending_world)
  have new3: "sealed s' = None \<longrightarrow>
            events (injectPending ctx steering (push turn_start s'))
              = events s' @ turn_start
                  # concat (map (\<lambda>m. [message_start m, message_end m]) steering)"
    by (simp add: injectPending_events events_push)
  have new4: "(hasMoreToolCalls \<or> pendingMessages \<noteq> []) \<and>
          streamAssistantResponse ctx config streamFn
            (injectPending ctx pendingMessages (if \<not> firstTurn then push turn_start t0 else t0))
            = (Inr response, t1) \<and>
          executeToolCalls run ctx response config streamFn
            (new_push (AssistantMessage response) t1) = (Inr (executed, Some steering), t3) \<and>
          toolCallsOf (am_content response) \<noteq> [] \<and>
          stopReason response \<noteq> ErrorStop \<and> stopReason response \<noteq> Aborted \<longrightarrow>
            innerLoop (Suc (Suc n)) run ctx config streamFn firstTurn hasMoreToolCalls
                pendingMessages steeringAfterTools t0
              = andThen (streamAssistantResponse ctx config streamFn
                           (injectPending ctx steering
                              (push turn_start
                                 (push (turn_end (AssistantMessage response) executed) t3))))
                  (\<lambda>reply s.
                     andThen (afterResponse run ctx config streamFn None reply
                                (new_push (AssistantMessage reply) s))
                       (\<lambda>t s. case t of
                            TurnReturned \<Rightarrow> (Inr Returned, s)
                          | TurnNext hasMore pending steering' \<Rightarrow>
                              innerLoop n run ctx config streamFn False hasMore pending
                                steering' s))"
    using steering_next_pass [where steering = steering, OF _ _ _ _ _ _ assms(4)] by blast
  from old new1 new2 new3 new4 show ?thesis by blast
qed

theorem steering_skips_remaining_calls_witness:
  "fst (executeToolCallsFrom (agentLoop 1) demoContext demoConfig demoStream [tcA, tcB] []
          (createAgentStream demoMachine))
     = Inr ([ToolResult ''tc-a'' ''echo'' [TextContent ''echoed: x''] ''{}'' False,
             ToolResult ''tc-b'' ''echo'' [TextContent ''Skipped due to queued user message.'']
               ''{}'' True],
            Some [UserMessage ''stop and do X'']) \<and>
   world (snd (executeToolCallsFrom (agentLoop 1) demoContext demoConfig demoStream [tcA, tcB] []
                 (createAgentStream demoMachine))) = (1, True) \<and>
   resultIds (newMessages (snd (executeToolCallsFrom (agentLoop 1) demoContext demoConfig
                 demoStream [tcA, tcB] [] (createAgentStream demoMachine))))
     = [''tc-a'', ''tc-b''] \<and>
   fst (afterResponse (agentLoop 1) demoContext demoConfig demoStream None twoCalls
          (createAgentStream demoMachine))
     = Inr (TurnNext True [UserMessage ''stop and do X''] None) \<and>
   innerLoop 2 (agentLoop 1) demoContext demoConfig demoStream True True [] None
       (createAgentStream demoMachine)
     = andThen (streamAssistantResponse demoContext demoConfig demoStream
                  (injectPending demoContext [UserMessage ''stop and do X'']
                     (push turn_start
                        (push (turn_end (AssistantMessage twoCalls)
                                 [ToolResult ''tc-a'' ''echo'' [TextContent ''echoed: x''] ''{}'' False,
                                  skippedResult tcB])
                           (snd (executeToolCalls (agentLoop 1) demoContext twoCalls demoConfig
                                   demoStream
                                   (new_push (AssistantMessage twoCalls)
                                      (snd (streamAssistantResponse demoContext demoConfig
                                              demoStream (createAgentStream demoMachine))))))))))
         (\<lambda>reply s.
            andThen (afterResponse (agentLoop 1) demoContext demoConfig demoStream None reply
                       (new_push (AssistantMessage reply) s))
              (\<lambda>t s. case t of
                   TurnReturned \<Rightarrow> (Inr Returned, s)
                 | TurnNext hasMore pending steering' \<Rightarrow>
                     innerLoop 0 (agentLoop 1) demoContext demoConfig demoStream False hasMore
                       pending steering' s)) \<and>
   fst (innerLoop 2 (agentLoop 1) demoContext demoConfig demoStream True True [] None
          (createAgentStream demoMachine)) = Inr (LoopExit False []) \<and>
   world (snd (innerLoop 2 (agentLoop 1) demoContext demoConfig demoStream True True [] None
                 (createAgentStream demoMachine))) = (1, True) \<and>
   log demoContext
     (snd (innerLoop 2 (agentLoop 1) demoContext demoConfig demoStream True True [] None
             (createAgentStream demoMachine)))
     = [AssistantMessage twoCalls,
        ToolResultMessage (ToolResult ''tc-a'' ''echo'' [TextContent ''echoed: x''] ''{}'' False),
        AdvisorMessage (Advisor ''reviewer'' ''Looks good!'' ''advisor-model''),
        ToolResultMessage (skippedResult tcB),
        UserMessage ''stop and do X'',
        AssistantMessage doneMsg] \<and>
   events
     (snd (innerLoop 2 (agentLoop 1) demoContext demoConfig demoStream True True [] None
             (createAgentStream demoMachine)))
     = events (snd (executeToolCalls (agentLoop 1) demoContext twoCalls demoConfig demoStream
                      (new_push (AssistantMessage twoCalls)
                         (snd (streamAssistantResponse demoContext demoConfig demoStream
                                 (createAgentStream demoMachine))))))
       @ [turn_end (AssistantMessage twoCalls)
          [ToolResult ''tc-a'' ''echo'' [TextContent ''echoed: x''] ''{}'' False,
           skippedResult tcB],
        turn_start,
        message_start (UserMessage ''stop and do X''),
        message_end (UserMessage ''stop and do X''),
        message_start (AssistantMessage (Assistant [] Stop)),
        message_end (AssistantMessage doneMsg),
        turn_end (AssistantMessage doneMsg) []]"
proof -
  let ?s = "createAgentStream demoMachine"
  let ?d = "dispatch demoContext tcA ?s"
  let ?h = "handleAdvisors (agentLoop 1) (advisors demoConfig) demoContext tcA (fst ?d)
              demoStream (snd ?d)"
  let ?x = "executeToolCallsFrom (agentLoop 1) demoContext demoConfig demoStream [tcA, tcB] [] ?s"
  let ?t1 = "snd (streamAssistantResponse demoContext demoConfig demoStream ?s)"
  let ?t3 = "snd (executeToolCalls (agentLoop 1) demoContext twoCalls demoConfig demoStream
                    (new_push (AssistantMessage twoCalls) ?t1))"
  let ?executed = "[ToolResult ''tc-a'' ''echo'' [TextContent ''echoed: x''] ''{}'' False,
                    skippedResult tcB]"
  let ?loop = "innerLoop 2 (agentLoop 1) demoContext demoConfig demoStream True True [] None ?s"
  have d: "fst ?d = ToolResult ''tc-a'' ''echo'' [TextContent ''echoed: x''] ''{}'' False"
    by (simp add: exec_simps state_simps demo_defs Let_def split del: if_split)
  have h: "fst ?h = Inr ()" "world (snd ?h) = (1, False)"
    "newMessages (snd ?h)
       = [ToolResultMessage (ToolResult ''tc-a'' ''echo'' [TextContent ''echoed: x''] ''{}'' False),
          AdvisorMessage (Advisor ''reviewer'' ''Looks good!'' ''advisor-model'')]"
    by (simp_all add: exec_simps state_simps demo_defs Let_def split del: if_split)
  have h': "?h = (Inr (), snd ?h)" using h(1) by (simp add: prod_eq_iff)
  have g: "getSteeringMessages demoConfig = Some demoSteering"
    "demoSteering (world (snd ?h)) = (Inr [UserMessage ''stop and do X''], (1, True))"
    using h(2) by (simp_all add: demoConfig_def demoSteering_def del: agentLoop.simps)
  have o: "sealed ?s = None" by (simp add: createAgentStream_def)
  note main = steering_skips_remaining_calls [OF h' g _ o,
      where remainingCalls = "[tcB]" and results = "[]" and tc = tcB
        and msg = twoCalls and s' = ?s and ?s3.0 = "snd ?x"
        and toolResults = "[ToolResult ''tc-a'' ''echo'' [TextContent ''echoed: x''] ''{}'' False,
             ToolResult ''tc-b'' ''echo'' [TextContent ''Skipped due to queued user message.'']
               ''{}'' True]"
        and steeringAfterTools = None
        and hasMoreToolCalls = True and pendingMessages = "[]" and firstTurn = True
        and ?t0.0 = ?s and response = twoCalls and ?t1.0 = ?t1 and executed = ?executed
        and ?t3.0 = ?t3 and n = 0]
  have x: "fst ?x = Inr ([ToolResult ''tc-a'' ''echo'' [TextContent ''echoed: x''] ''{}'' False,
             ToolResult ''tc-b'' ''echo'' [TextContent ''Skipped due to queued user message.'']
               ''{}'' True], Some [UserMessage ''stop and do X''])"
    using main d by (simp add: skippedResult_def tcB_def del: executeToolCallsFrom.simps innerLoop.simps)
  have x': "executeToolCalls (agentLoop 1) demoContext twoCalls demoConfig demoStream ?s
              = (fst ?x, snd ?x)"
    by (simp add: executeToolCalls_def twoCalls_def del: executeToolCallsFrom.simps)
  have old: "fst ?x
     = Inr ([ToolResult ''tc-a'' ''echo'' [TextContent ''echoed: x''] ''{}'' False,
             ToolResult ''tc-b'' ''echo'' [TextContent ''Skipped due to queued user message.'']
               ''{}'' True],
            Some [UserMessage ''stop and do X'']) \<and>
   world (snd ?x) = (1, True) \<and>
   resultIds (newMessages (snd ?x)) = [''tc-a'', ''tc-b''] \<and>
   fst (afterResponse (agentLoop 1) demoContext demoConfig demoStream None twoCalls ?s)
     = Inr (TurnNext True [UserMessage ''stop and do X''] None)"
    using main x x' h(3)
    by (simp add: skippedResult_def tcB_def twoCalls_def
          del: executeToolCallsFrom.simps agentLoop.simps innerLoop.simps)
  have p2: "streamAssistantResponse demoContext demoConfig demoStream
              (injectPending demoContext [] (if \<not> True then push turn_start ?s else ?s))
            = (Inr twoCalls, ?t1)"
  proof -
    have "fst (streamAssistantResponse demoContext demoConfig demoStream ?s) = Inr twoCalls"
      by (simp add: exec_simps state_simps demo_defs Let_def split del: if_split)
    then show ?thesis by (simp add: injectPending_def prod_eq_iff)
  qed
  have p3: "executeToolCalls (agentLoop 1) demoContext twoCalls demoConfig demoStream
              (new_push (AssistantMessage twoCalls) ?t1)
            = (Inr (?executed, Some [UserMessage ''stop and do X'']), ?t3)"
  proof -
    have "fst (executeToolCalls (agentLoop 1) demoContext twoCalls demoConfig demoStream
              (new_push (AssistantMessage twoCalls) ?t1))
            = Inr (?executed, Some [UserMessage ''stop and do X''])"
      by (simp add: exec_simps state_simps demo_defs Let_def skippedResult_def
            split del: if_split)
    then show ?thesis by (simp add: prod_eq_iff del: agentLoop.simps)
  qed
  have p4: "toolCallsOf (am_content twoCalls) \<noteq> []" "stopReason twoCalls \<noteq> ErrorStop"
    "stopReason twoCalls \<noteq> Aborted"
    by (simp_all add: twoCalls_def)
  have next_pass: "innerLoop (Suc (Suc 0)) (agentLoop 1) demoContext demoConfig demoStream
       True True [] None ?s
     = andThen (streamAssistantResponse demoContext demoConfig demoStream
                  (injectPending demoContext [UserMessage ''stop and do X'']
                     (push turn_start (push (turn_end (AssistantMessage twoCalls) ?executed) ?t3))))
         (\<lambda>reply s.
            andThen (afterResponse (agentLoop 1) demoContext demoConfig demoStream None reply
                       (new_push (AssistantMessage reply) s))
              (\<lambda>t s. case t of
                   TurnReturned \<Rightarrow> (Inr Returned, s)
                 | TurnNext hasMore pending steering' \<Rightarrow>
                     innerLoop 0 (agentLoop 1) demoContext demoConfig demoStream False hasMore
                       pending steering' s))"
    using main p2 p3 p4 by blast
  have w5: "?loop = andThen (streamAssistantResponse demoContext demoConfig demoStream
                  (injectPending demoContext [UserMessage ''stop and do X'']
                     (push turn_start (push (turn_end (AssistantMessage twoCalls) ?executed) ?t3))))
         (\<lambda>reply s.
            andThen (afterResponse (agentLoop 1) demoContext demoConfig demoStream None reply
                       (new_push (AssistantMessage reply) s))
              (\<lambda>t s. case t of
                   TurnReturned \<Rightarrow> (Inr Returned, s)
                 | TurnNext hasMore pending steering' \<Rightarrow>
                     innerLoop 0 (agentLoop 1) demoContext demoConfig demoStream False hasMore
                       pending steering' s))"
    unfolding numeral_2_eq_2 by (rule next_pass)
  have w6: "fst ?loop = Inr (LoopExit False [])"
    by (simp add: exec_simps state_simps numeral_2_eq_2 demo_defs Let_def split del: if_split)
  have w7: "world (snd ?loop) = (1, True)"
    by (simp add: exec_simps state_simps numeral_2_eq_2 demo_defs Let_def split del: if_split)
  have w8: "log demoContext (snd ?loop)
     = [AssistantMessage twoCalls,
        ToolResultMessage (ToolResult ''tc-a'' ''echo'' [TextContent ''echoed: x''] ''{}'' False),
        AdvisorMessage (Advisor ''reviewer'' ''Looks good!'' ''advisor-model''),
        ToolResultMessage (skippedResult tcB),
        UserMessage ''stop and do X'',
        AssistantMessage doneMsg]"
    by (simp add: exec_simps state_simps numeral_2_eq_2 demo_defs Let_def skippedResult_def
          split del: if_split)
  have w9: "events (snd ?loop)
     = events ?t3 @ [turn_end (AssistantMessage twoCalls) ?executed,
        turn_start,
        message_start (UserMessage ''stop and do X''),
        message_end (UserMessage ''stop and do X''),
        message_start (AssistantMessage (Assistant [] Stop)),
        message_end (AssistantMessage doneMsg),
        turn_end (AssistantMessage doneMsg) []]"
    by (simp add: exec_simps state_simps numeral_2_eq_2 demo_defs Let_def skippedResult_def
          split del: if_split)
  from old w5 w6 w7 w8 w9 show ?thesis by blast
qed

text \<open>
  C3. Two runs that differ only in where the advisor fails. When \<open>createContext\<close> throws,
  \<open>advisor_error\<close> is emitted, no advisor message is added and the run goes on to
  \<open>agent_end\<close>. When the trigger throws, the exception leaves \<open>handleAdvisors\<close>,
  \<open>executeToolCalls\<close> and \<open>runLoop\<close>: the task of the run fails with it, the stream
  stops after the tool result with no \<open>advisor_error\<close> and no \<open>agent_end\<close>, and is
  never sealed.
\<close>

theorem trigger_throw_ends_the_run:
  "fst (agentLoop 2 [UserMessage ''go''] demoContext (plainConfig\<lparr>advisors := Some [throwingCreate]\<rparr>)
          oneCallStream demoMachine) = Inr () \<and>
   events (snd (agentLoop 2 [UserMessage ''go''] demoContext
                  (plainConfig\<lparr>advisors := Some [throwingCreate]\<rparr>) oneCallStream demoMachine))
     = [agent_start, turn_start,
        message_start (UserMessage ''go''), message_end (UserMessage ''go''),
        message_start (AssistantMessage (Assistant [] Stop)),
        message_end (AssistantMessage oneCall),
        tool_execution_start ''tc-a'' ''echo'' ''x'',
        tool_execution_end ''tc-a'' ''echo'' (ToolOutput [TextContent ''echoed: x''] ''{}'') False,
        message_start (ToolResultMessage echoResult),
        message_end (ToolResultMessage echoResult),
        advisor_start ''reviewer'' ''echo'',
        advisor_error ''reviewer'' ''bad'',
        turn_end (AssistantMessage oneCall) [echoResult],
        turn_start,
        message_start (AssistantMessage (Assistant [] Stop)),
        message_end (AssistantMessage doneMsg),
        turn_end (AssistantMessage doneMsg) [],
        agent_end [UserMessage ''go'', AssistantMessage oneCall, ToolResultMessage echoResult,
                   AssistantMessage doneMsg]] \<and>
   fst (agentLoop 2 [UserMessage ''go''] demoContext (plainConfig\<lparr>advisors := Some [throwingTrigger]\<rparr>)
          oneCallStream demoMachine) = Inl (Thrown (ErrorObject ''trigger failed'')) \<and>
   events (snd (agentLoop 2 [UserMessage ''go''] demoContext
                  (plainConfig\<lparr>advisors := Some [throwingTrigger]\<rparr>) oneCallStream demoMachine))
     = [agent_start, turn_start,
        message_start (UserMessage ''go''), message_end (UserMessage ''go''),
        message_start (AssistantMessage (Assistant [] Stop)),
        message_end (AssistantMessage oneCall),
        tool_execution_start ''tc-a'' ''echo'' ''x'',
        tool_execution_end ''tc-a'' ''echo'' (ToolOutput [TextContent ''echoed: x''] ''{}'') False,
        message_start (ToolResultMessage echoResult),
        message_end (ToolResultMessage echoResult)] \<and>
   sealed (snd (agentLoop 2 [UserMessage ''go''] demoContext
                  (plainConfig\<lparr>advisors := Some [throwingTrigger]\<rparr>) oneCallStream demoMachine))
     = None"
  by (simp add: exec_simps state_simps numeral_2_eq_2 Let_def demo_defs plainConfig_def
        throwingTrigger_def throwingCreate_def oneCall_def oneCallStream_def echoResult_def
        split del: if_split)

text \<open>
  C4, as stated, fails: a run created via the continue entry does poll
  \<open>getSteeringMessages\<close> before its first LLM call. Here the log holds one user message,
  the user's queue holds another, and the continued run injects the queued message
  before the assistant's answer.
\<close>

theorem continue_entry_polls_counterexample:
  "\<not> isl (agentLoopContinue 1 demoContext earlyConfig doneStream userMachine) \<and>
   fst (projr (agentLoopContinue 1 demoContext earlyConfig doneStream userMachine)) = Inr () \<and>
   newMessages (snd (projr (agentLoopContinue 1 demoContext earlyConfig doneStream userMachine)))
     = [UserMessage ''typed while waiting'', AssistantMessage doneMsg] \<and>
   events (snd (projr (agentLoopContinue 1 demoContext earlyConfig doneStream userMachine)))
     = [agent_start, turn_start,
        message_start (UserMessage ''typed while waiting''),
        message_end (UserMessage ''typed while waiting''),
        message_start (AssistantMessage (Assistant [] Stop)),
        message_end (AssistantMessage doneMsg),
        turn_end (AssistantMessage doneMsg) [],
        agent_end [UserMessage ''typed while waiting'', AssistantMessage doneMsg]] \<and>
   world (snd (projr (agentLoopContinue 1 demoContext earlyConfig doneStream userMachine)))
     = (0, True)"
  by (simp add: agentLoopContinue_def exec_simps state_simps Let_def demo_defs plainConfig_def
        earlyConfig_def earlySteering_def doneStream_def userMachine_def
        split del: if_split)

text \<open>
  C4, amended. The poll before the first turn is the first step of \<open>runLoop\<close>, which both
  entries call: a run created via the start entry and a run created via the continue
  entry each poll \<open>getSteeringMessages\<close> once before the first LLM call, and the messages
  returned are the pending messages of the first turn, appended to the log before the
  assistant is asked.
\<close>

theorem both_entries_poll_before_first_turn:
  assumes "getSteeringMessages config = Some g"
    and "g (world m) = (Inr pending, w)"
  shows "(cells m (messages ctx) \<noteq> [] \<and> role (last (cells m (messages ctx))) \<noteq> RoleAssistant \<longrightarrow>
            agentLoopContinue fuel ctx config streamFn m
              = Inr (outerLoop fuel (agentLoop fuel) ctx config streamFn True pending
                       (push turn_start (push agent_start (createAgentStream m))\<lparr>world := w\<rparr>))) \<and>
         agentLoop (Suc n) prompts ctx config streamFn m
           = outerLoop (Suc n) (agentLoop n) (ctx\<lparr>messages := next_ref m\<rparr>) config streamFn
               True pending
               (foldl (\<lambda>s prompt. push (message_end prompt) (push (message_start prompt) s))
                  (push turn_start (push agent_start
                     (createAgentStream m
                        \<lparr>cells := (cells m)(next_ref m := cells m (messages ctx) @ prompts),
                         next_ref := Suc (next_ref m), newMessages := prompts\<rparr>)))
                  prompts\<lparr>world := w\<rparr>) \<and>
         turn run ctx config streamFn True pending None s
           = andThen (streamAssistantResponse ctx config streamFn (injectPending ctx pending s))
               (\<lambda>msg s. afterResponse run ctx config streamFn None msg
                           (new_push (AssistantMessage msg) s)) \<and>
         log ctx (injectPending ctx pending s) = log ctx s @ pending"
proof -
  have w0: "world (foldl (\<lambda>s prompt. push (message_end prompt) (push (message_start prompt) s))
                s0 ps) = world s0" for s0 :: "'a run_state" and ps
    by (induction ps arbitrary: s0) simp_all
  have a: "agentLoop (Suc n) prompts ctx config streamFn m
           = outerLoop (Suc n) (agentLoop n) (ctx\<lparr>messages := next_ref m\<rparr>) config streamFn
               True pending
               (foldl (\<lambda>s prompt. push (message_end prompt) (push (message_start prompt) s))
                  (push turn_start (push agent_start
                     (createAgentStream m
                        \<lparr>cells := (cells m)(next_ref m := cells m (messages ctx) @ prompts),
                         next_ref := Suc (next_ref m), newMessages := prompts\<rparr>)))
                  prompts\<lparr>world := w\<rparr>)"
    using assms
    by (simp add: agentLoopWith_def runLoop_def poll_def call_def w0 createAgentStream_def
          Let_def del: outerLoop.simps)
  have c: "agentLoopContinue fuel ctx config streamFn m
              = Inr (outerLoop fuel (agentLoop fuel) ctx config streamFn True pending
                       (push turn_start (push agent_start (createAgentStream m))\<lparr>world := w\<rparr>))"
    if "cells m (messages ctx) \<noteq> []" "role (last (cells m (messages ctx))) \<noteq> RoleAssistant"
    using assms that
    by (simp add: agentLoopContinue_def runLoop_def poll_def call_def createAgentStream_def
          Let_def del: outerLoop.simps)
  show ?thesis
    using a c injectPending_extends [of ctx pending s]
    by (simp add: turn_def extends_by_def del: agentLoop.simps outerLoop.simps)
qed

theorem both_entries_poll_before_first_turn_witness:
  "agentLoopContinue 1 demoContext earlyConfig doneStream userMachine
     = Inr (outerLoop 1 (agentLoop 1) demoContext earlyConfig doneStream True
              [UserMessage ''typed while waiting'']
              (push turn_start (push agent_start (createAgentStream userMachine))
                 \<lparr>world := (0, True)\<rparr>)) \<and>
   fst (agentLoop 1 [UserMessage ''go''] demoContext earlyConfig doneStream userMachine) = Inr () \<and>
   newMessages (snd (agentLoop 1 [UserMessage ''go''] demoContext earlyConfig doneStream
                       userMachine))
     = [UserMessage ''go'', UserMessage ''typed while waiting'', AssistantMessage doneMsg]"
proof -
  have g: "getSteeringMessages earlyConfig = Some earlySteering"
    "earlySteering (world userMachine) = (Inr [UserMessage ''typed while waiting''], (0, True))"
    by (simp_all add: earlyConfig_def earlySteering_def userMachine_def)
  have u: "cells userMachine (messages demoContext) \<noteq> []"
    "role (last (cells userMachine (messages demoContext))) \<noteq> RoleAssistant"
    by (simp_all add: userMachine_def)
  note main = both_entries_poll_before_first_turn [OF g, where ctx = demoContext
      and fuel = 1 and streamFn = doneStream and n = 0 and prompts = "[UserMessage ''go'']"]
  have s: "fst (agentLoop 1 [UserMessage ''go''] demoContext earlyConfig doneStream userMachine)
             = Inr ()"
    "newMessages (snd (agentLoop 1 [UserMessage ''go''] demoContext earlyConfig doneStream
                       userMachine))
     = [UserMessage ''go'', UserMessage ''typed while waiting'', AssistantMessage doneMsg]"
    by (simp_all add: exec_simps state_simps Let_def demo_defs plainConfig_def
        earlyConfig_def earlySteering_def doneStream_def userMachine_def
        split del: if_split)
  show ?thesis
    using main u s by (simp del: agentLoop.simps outerLoop.simps)
qed

lemma resultIds_Cons_other: "role m \<noteq> RoleToolResult \<Longrightarrow> resultIds (m # ms) = resultIds ms"
  by (cases m) simp_all

lemma harmless_no_results: "harmless d \<Longrightarrow> resultIds d = []"
  by (induction d) (simp_all add: harmless_def resultIds_Cons_other)

lemma takeWhile_all: "\<forall>m\<in>set d. P m \<Longrightarrow> takeWhile P d = d"
  by (induction d) simp_all

lemma segments_ok_no_assistant: "\<forall>m\<in>set d. role m \<noteq> RoleAssistant \<Longrightarrow> segments_ok d"
proof (induction d)
  case Nil
  then show ?case by simp
next
  case (Cons m d)
  then show ?case by (cases m) simp_all
qed

lemma segment_ids_harmless:
  assumes "harmless d"
  shows "resultIds (takeWhile (\<lambda>m. role m \<noteq> RoleAssistant) (ms @ d))
           = resultIds (takeWhile (\<lambda>m. role m \<noteq> RoleAssistant) ms)"
proof (induction ms)
  case Nil
  have tw: "takeWhile (\<lambda>m. role m \<noteq> RoleAssistant) d = d"
    using assms by (intro takeWhile_all) (simp add: harmless_def)
  show ?case using assms by (simp only: tw append_Nil takeWhile.simps harmless_no_results resultIds_simps)
next
  case (Cons m ms)
  then show ?case by (cases m) simp_all
qed

lemma segments_ok_harmless:
  assumes "harmless d"
  shows "segments_ok (ms @ d) = segments_ok ms"
proof (induction ms)
  case Nil
  show ?case using assms by (simp add: segments_ok_no_assistant harmless_def)
next
  case (Cons m ms)
  then show ?case by (cases m) (simp_all add: segment_ids_harmless [OF assms])
qed

lemma segment_ids_cut:
  "takeWhile (\<lambda>m. role m \<noteq> RoleAssistant) (ms @ AssistantMessage a # d)
     = takeWhile (\<lambda>m. role m \<noteq> RoleAssistant) ms"
  by (induction ms) simp_all

lemma fromTools_not_assistant: "fromTools m \<Longrightarrow> role m \<noteq> RoleAssistant"
  by (auto simp: fromTools_def)

lemma segments_ok_turn:
  assumes "segments_ok ms" and "\<forall>m\<in>set d. fromTools m"
    and "stopReason a = ErrorStop \<or> stopReason a = Aborted \<or>
         resultIds d = map tc_id (toolCallsOf (am_content a))"
  shows "segments_ok (ms @ AssistantMessage a # d)"
  using assms(1)
proof (induction ms)
  case Nil
  have na: "\<forall>m\<in>set d. role m \<noteq> RoleAssistant"
    using assms(2) by (auto dest: fromTools_not_assistant)
  then have tw: "takeWhile (\<lambda>m. role m \<noteq> RoleAssistant) d = d" by (rule takeWhile_all)
  have "segments_ok d" using na by (rule segments_ok_no_assistant)
  then show ?case using assms(3) by (simp only: append_Nil segments_ok.simps tw simp_thms)
next
  case (Cons m ms)
  then show ?case by (cases m) (simp_all add: segment_ids_cut)
qed

lemma segments_ok_suffix: "segments_ok (xs @ ys) \<Longrightarrow> segments_ok ys"
proof (induction xs)
  case Nil
  then show ?case by simp
next
  case (Cons m xs)
  then show ?case by (cases m) simp_all
qed

lemma segments_ok_segment:
  assumes "segments_ok (before @ AssistantMessage a # segment @ rest)"
    and "\<forall>m\<in>set segment. role m \<noteq> RoleAssistant"
    and "rest = [] \<or> role (hd rest) = RoleAssistant"
    and "stopReason a \<noteq> ErrorStop" "stopReason a \<noteq> Aborted"
  shows "resultIds segment = map tc_id (toolCallsOf (am_content a))"
proof -
  have "takeWhile (\<lambda>m. role m \<noteq> RoleAssistant) (segment @ rest) = segment"
  proof (cases rest)
    case Nil
    then show ?thesis using assms(2) by (simp add: takeWhile_all)
  next
    case (Cons r rs)
    then have "\<not> role r \<noteq> RoleAssistant" using assms(3) by simp
    then show ?thesis
      using assms(2) Cons by (simp add: takeWhile_all)
  qed
  moreover have "segments_ok (AssistantMessage a # segment @ rest)"
    using assms(1) by (rule segments_ok_suffix)
  ultimately show ?thesis using assms(4,5) by simp
qed

lemma segments_ok_after_turn:
  assumes "segments_ok nm" and "harmless pending" and "\<forall>m\<in>set d. fromTools m"
    and "turn_shape cfg msg d x"
  shows "segments_ok (nm @ pending @ AssistantMessage msg # d)"
proof -
  have "segments_ok (nm @ pending)" using assms(1,2) by (simp add: segments_ok_harmless)
  moreover have "stopReason msg = ErrorStop \<or> stopReason msg = Aborted \<or>
         resultIds d = map tc_id (toolCallsOf (am_content msg))"
    using assms(4) by (cases x) (auto simp: turn_shape_def)
  ultimately have "segments_ok ((nm @ pending) @ AssistantMessage msg # d)"
    using assms(3) by (intro segments_ok_turn)
  then show ?thesis by simp
qed

lemma innerLoop_paired:
  assumes "polite (getSteeringMessages cfg)"
  shows "segments_ok (newMessages s) \<Longrightarrow> harmless p \<Longrightarrow>
         \<forall>ms. st = Some ms \<longrightarrow> queued (getSteeringMessages cfg) ms \<Longrightarrow>
         innerLoop fuel run c cfg sf ft h p st s = (Inr x, s') \<Longrightarrow>
         segments_ok (newMessages s')"
proof (induction fuel arbitrary: ft h p st s)
  case 0
  then show ?case by (auto split: if_splits)
next
  case (Suc n)
  show ?case
  proof (cases "h \<or> p \<noteq> []")
    case False
    with Suc.prems show ?thesis by auto
  next
    case True
    with Suc.prems(4) obtain t s1 where t: "turn run c cfg sf ft p st s = (Inr t, s1)"
      and k: "(case t of
               TurnReturned \<Rightarrow> (Inr Returned, s1)
             | TurnNext hasMore pending steering \<Rightarrow>
                 innerLoop n run c cfg sf False hasMore pending steering s1) = (Inr x, s')"
      by (auto elim!: andThen_cases)
    from turn_appends [OF t Suc.prems(3)] obtain msg d where
      nm: "newMessages s1 = newMessages s @ p @ AssistantMessage msg # d"
      and d: "\<forall>m\<in>set d. fromTools m" and sh: "turn_shape cfg msg d t"
      by blast
    have ok1: "segments_ok (newMessages s1)"
      unfolding nm using Suc.prems(1,2) d sh by (rule segments_ok_after_turn)
    show ?thesis
    proof (cases t)
      case TurnReturned
      with k ok1 show ?thesis by simp
    next
      case (TurnNext h' p' st')
      with sh have q: "queued (getSteeringMessages cfg) p'"
        "\<forall>ms. st' = Some ms \<longrightarrow> queued (getSteeringMessages cfg) ms"
        by (simp_all add: turn_shape_def)
      then have "harmless p'" using assms by (simp add: polite_def)
      from Suc.IH [OF ok1 this q(2)] k TurnNext show ?thesis by simp
    qed
  qed
qed

lemma outerLoop_paired:
  assumes "polite (getSteeringMessages cfg)" and "polite (getFollowUpMessages cfg)"
  shows "segments_ok (newMessages s) \<Longrightarrow> harmless p \<Longrightarrow>
         outerLoop fuel run c cfg sf ft p s = (Inr (), s') \<Longrightarrow>
         segments_ok (newMessages s')"
proof (induction fuel arbitrary: ft p s)
  case 0
  then show ?case by simp
next
  case (Suc n)
  from Suc.prems(3) obtain x s1 where
    i: "innerLoop (Suc n) run c cfg sf ft True p None s = (Inr x, s1)"
    and k: "(case x of
            Returned \<Rightarrow> (Inr (), s1)
          | LoopExit firstTurn' pendingMessages' \<Rightarrow>
              andThen (poll (getFollowUpMessages cfg) s1)
                (\<lambda>followUpMessages s.
                   if followUpMessages \<noteq> [] then
                     outerLoop n run c cfg sf firstTurn' followUpMessages s
                   else (Inr (), finish s))) = (Inr (), s')"
    by (auto elim!: andThen_cases simp del: innerLoop.simps)
  have ok1: "segments_ok (newMessages s1)"
    using innerLoop_paired [OF assms(1) Suc.prems(1,2) _ i] by simp
  show ?case
  proof (cases x)
    case Returned
    with k ok1 show ?thesis by simp
  next
    case (LoopExit ft' p')
    with k obtain f s2 where f: "poll (getFollowUpMessages cfg) s1 = (Inr f, s2)"
      and k2: "(if f \<noteq> [] then outerLoop n run c cfg sf ft' f s2 else (Inr (), finish s2))
                = (Inr (), s')"
      by (auto elim!: andThen_cases)
    from poll_queued [OF f] have q: "queued (getFollowUpMessages cfg) f"
      and same: "newMessages s2 = newMessages s1" by simp_all
    have hf: "harmless f" using q assms(2) by (simp add: polite_def)
    have ok2: "segments_ok (newMessages s2)" using ok1 same by simp
    show ?thesis
    proof (cases "f = []")
      case True
      with k2 ok2 show ?thesis by (auto simp: finish_def endStream_def)
    next
      case False
      with k2 Suc.IH [OF ok2 hf] show ?thesis by simp
    qed
  qed
qed

lemma runLoop_paired:
  assumes "polite (getSteeringMessages cfg)" and "polite (getFollowUpMessages cfg)"
    and "segments_ok (newMessages s)" and "runLoop fuel run c cfg sf s = (Inr (), s')"
  shows "segments_ok (newMessages s')"
proof -
  from assms(4) obtain p s1 where p: "poll (getSteeringMessages cfg) s = (Inr p, s1)"
    and o: "outerLoop fuel run c cfg sf True p s1 = (Inr (), s')"
    unfolding runLoop_def by (auto elim!: andThen_cases)
  from poll_queued [OF p] have "queued (getSteeringMessages cfg) p"
    and same: "newMessages s1 = newMessages s" by simp_all
  then have "harmless p" using assms(1) by (simp add: polite_def)
  moreover have "segments_ok (newMessages s1)" using assms(3) same by simp
  ultimately show ?thesis using outerLoop_paired [OF assms(1,2) _ _ o] by simp
qed

lemma prompts_pushed:
  "newMessages (foldl (\<lambda>s prompt. push (message_end prompt) (push (message_start prompt) s))
                  s ps) = newMessages s"
  by (induction ps arbitrary: s) simp_all

lemma agentLoop_paired:
  assumes "harmless prompts" and "polite (getSteeringMessages cfg)"
    and "polite (getFollowUpMessages cfg)"
    and "fst (agentLoop fuel prompts c cfg sf m) = Inr ()"
  shows "segments_ok (newMessages (snd (agentLoop fuel prompts c cfg sf m)))"
proof (cases fuel)
  case 0
  with assms(4) show ?thesis by simp
next
  case (Suc n)
  let ?s2 = "foldl (\<lambda>s prompt. push (message_end prompt) (push (message_start prompt) s))
               (push turn_start (push agent_start
                  (createAgentStream m
                     \<lparr>cells := (cells m)(next_ref m := cells m (messages c) @ prompts),
                      next_ref := Suc (next_ref m), newMessages := prompts\<rparr>)))
               prompts"
  have run: "agentLoop fuel prompts c cfg sf m
               = runLoop (Suc n) (agentLoop n) (c\<lparr>messages := next_ref m\<rparr>) cfg sf ?s2"
    using Suc by (simp add: agentLoopWith_def Let_def)
  have "newMessages ?s2 = prompts" by (simp add: prompts_pushed)
  moreover have "segments_ok prompts"
    using assms(1) by (intro segments_ok_no_assistant) (simp add: harmless_def)
  ultimately have ok: "segments_ok (newMessages ?s2)" by simp
  obtain s' where "runLoop (Suc n) (agentLoop n) (c\<lparr>messages := next_ref m\<rparr>) cfg sf ?s2
                     = (Inr (), s')"
    using assms(4) run by (metis prod.collapse)
  from runLoop_paired [OF assms(2,3) ok this] this run show ?thesis by simp
qed

lemma continue_paired:
  assumes "polite (getSteeringMessages cfg)" and "polite (getFollowUpMessages cfg)"
    and "agentLoopContinue fuel c cfg sf m = Inr r" and "fst r = Inr ()"
  shows "segments_ok (newMessages (snd r))"
proof -
  let ?s1 = "push turn_start (push agent_start (createAgentStream m))"
  have r: "r = runLoop fuel (agentLoop fuel) c cfg sf ?s1"
    using assms(3) by (auto simp: agentLoopContinue_def Let_def split: if_splits)
  have ok: "segments_ok (newMessages ?s1)" by (simp add: createAgentStream_def)
  have "runLoop fuel (agentLoop fuel) c cfg sf ?s1 = (Inr (), snd r)"
    using assms(4) r by (metis prod.collapse)
  from runLoop_paired [OF assms(1,2) ok this] show ?thesis .
qed

lemma once_in_distinct:
  "distinct xs \<Longrightarrow> x \<in> set xs \<Longrightarrow> length (filter (\<lambda>j. j = x) xs) = 1"
  by (induction xs) (auto simp: filter_empty_conv)

lemma results_by_id:
  "length (filter (\<lambda>r. toolCallId r = i) (resultsOf ms))
     = length (filter (\<lambda>j. j = i) (resultIds ms))"
  by (simp add: resultIds_def filter_map comp_def)

text \<open>
  C1, as stated, fails for an assistant message that ends the run: a response with
  \<open>stopReason\<close> aborted that carries a tool call is logged, the run ends with
  \<open>agent_end\<close>, and the call never gets a \<open>toolResult\<close>.
\<close>

theorem aborted_call_unanswered_counterexample:
  "fst (agentLoop 1 [UserMessage ''go''] demoContext plainConfig abortedStream demoMachine)
     = Inr () \<and>
   newMessages (snd (agentLoop 1 [UserMessage ''go''] demoContext plainConfig abortedStream
                       demoMachine))
     = [UserMessage ''go'', AssistantMessage abortedMsg] \<and>
   toolCallsOf (am_content abortedMsg) = [tcA] \<and>
   resultsOf (newMessages (snd (agentLoop 1 [UserMessage ''go''] demoContext plainConfig
                                  abortedStream demoMachine))) = []"
  by (simp add: exec_simps state_simps Let_def demo_defs plainConfig_def abortedStream_def
        abortedMsg_def split del: if_split)

text \<open>
  C1, amended. Take a run, by either entry, that ends with \<open>agent_end\<close>, whose prompts and
  whose steering and follow-up messages are neither assistant nor \<open>toolResult\<close> messages.
  In its new messages, every assistant message whose \<open>stopReason\<close> is neither error nor
  aborted is followed, before the next assistant message, by \<open>toolResult\<close> messages whose
  ids are exactly the ids of its tool calls, in order; so a call whose id occurs once has
  exactly one result. Skipped calls are among them: their results are synthetic.
\<close>

theorem tool_calls_are_answered:
  assumes "harmless prompts"
    and "polite (getSteeringMessages config)" and "polite (getFollowUpMessages config)"
    and "r = agentLoop fuel prompts ctx config streamFn m \<or>
         agentLoopContinue fuel ctx config streamFn m = Inr r"
    and "fst r = Inr ()"
    and "newMessages (snd r) = before @ AssistantMessage a # segment @ rest"
    and "\<forall>m\<in>set segment. role m \<noteq> RoleAssistant"
    and "rest = [] \<or> role (hd rest) = RoleAssistant"
    and "stopReason a \<noteq> ErrorStop" and "stopReason a \<noteq> Aborted"
  shows "resultIds segment = map tc_id (toolCallsOf (am_content a)) \<and>
         (distinct (map tc_id (toolCallsOf (am_content a))) \<longrightarrow>
            (\<forall>tc\<in>set (toolCallsOf (am_content a)).
               length (filter (\<lambda>res. toolCallId res = tc_id tc) (resultsOf segment)) = 1))"
proof -
  have "segments_ok (newMessages (snd r))"
    using assms(4)
  proof
    assume "r = agentLoop fuel prompts ctx config streamFn m"
    then show ?thesis using agentLoop_paired [OF assms(1-3)] assms(5) by simp
  next
    assume "agentLoopContinue fuel ctx config streamFn m = Inr r"
    from continue_paired [OF assms(2,3) this assms(5)] show ?thesis .
  qed
  then have "segments_ok (before @ AssistantMessage a # segment @ rest)"
    using assms(6) by simp
  from segments_ok_segment [OF this assms(7-10)]
  have ids: "resultIds segment = map tc_id (toolCallsOf (am_content a))" .
  have "length (filter (\<lambda>res. toolCallId res = tc_id tc) (resultsOf segment)) = 1"
    if "distinct (map tc_id (toolCallsOf (am_content a)))"
      and "tc \<in> set (toolCallsOf (am_content a))" for tc
  proof -
    have "tc_id tc \<in> set (map tc_id (toolCallsOf (am_content a)))"
      using that(2) by simp
    from once_in_distinct [OF that(1) this] show ?thesis
      by (simp only: results_by_id ids)
  qed
  with ids show ?thesis by blast
qed

theorem tool_calls_are_answered_witness:
  "harmless [UserMessage ''go''] \<and>
   fst (agentLoop 3 [UserMessage ''go''] demoContext demoConfig demoStream demoMachine) = Inr () \<and>
   newMessages (snd (agentLoop 3 [UserMessage ''go''] demoContext demoConfig demoStream
                       demoMachine))
     = [UserMessage ''go''] @ AssistantMessage twoCalls
         # [ToolResultMessage (ToolResult ''tc-a'' ''echo'' [TextContent ''echoed: x''] ''{}'' False),
            AdvisorMessage (Advisor ''reviewer'' ''Looks good!'' ''advisor-model''),
            ToolResultMessage (skippedResult tcB),
            UserMessage ''stop and do X'']
         @ [AssistantMessage doneMsg] \<and>
   resultIds
     [ToolResultMessage (ToolResult ''tc-a'' ''echo'' [TextContent ''echoed: x''] ''{}'' False),
      AdvisorMessage (Advisor ''reviewer'' ''Looks good!'' ''advisor-model''),
      ToolResultMessage (skippedResult tcB),
      UserMessage ''stop and do X'']
     = map tc_id (toolCallsOf (am_content twoCalls))"
proof -
  let ?r = "agentLoop 3 [UserMessage ''go''] demoContext demoConfig demoStream demoMachine"
  let ?segment =
    "[ToolResultMessage (ToolResult ''tc-a'' ''echo'' [TextContent ''echoed: x''] ''{}'' False),
      AdvisorMessage (Advisor ''reviewer'' ''Looks good!'' ''advisor-model''),
      ToolResultMessage (skippedResult tcB),
      UserMessage ''stop and do X'']"
  have h: "harmless [UserMessage ''go'']" by (simp add: harmless_def)
  have p1: "polite (getSteeringMessages demoConfig)"
    by (auto simp: polite_def queued_def harmless_def demoConfig_def demoSteering_def
        split: if_splits)
  have p2: "polite (getFollowUpMessages demoConfig)"
    by (simp add: polite_def queued_def harmless_def demoConfig_def)
  have f: "fst ?r = Inr ()"
    by (simp add: exec_simps state_simps numeral_3_eq_3 Let_def demo_defs split del: if_split)
  have n: "newMessages (snd ?r)
     = [UserMessage ''go''] @ AssistantMessage twoCalls # ?segment @ [AssistantMessage doneMsg]"
    by (simp add: exec_simps state_simps numeral_3_eq_3 Let_def demo_defs skippedResult_def
          split del: if_split)
  have s: "\<forall>m\<in>set ?segment. role m \<noteq> RoleAssistant"
    "[AssistantMessage doneMsg] = [] \<or> role (hd [AssistantMessage doneMsg]) = RoleAssistant"
    "stopReason twoCalls \<noteq> ErrorStop" "stopReason twoCalls \<noteq> Aborted"
    by (simp_all add: twoCalls_def)
  have "?r = ?r \<or> agentLoopContinue 3 demoContext demoConfig demoStream demoMachine = Inr ?r"
    by simp
  from tool_calls_are_answered [OF h p1 p2 this f n s] h f n
  show ?thesis by (simp del: agentLoop.simps)
qed

lemma prompts_pushed_cells:
  "cells (foldl (\<lambda>s prompt. push (message_end prompt) (push (message_start prompt) s))
            s ps) = cells s \<and>
   newMessages (foldl (\<lambda>s prompt. push (message_end prompt) (push (message_start prompt) s))
            s ps) = newMessages s"
  by (induction ps arbitrary: s) simp_all

lemma cells_ctx_push:
  "cells (ctx_push c m s) a = (if a = messages c then cells s a @ [m] else cells s a)"
  by (simp add: ctx_push_def)

lemma cells_ctx_set_last:
  "cells (ctx_set_last c m s) a
     = (if a = messages c then (cells s a)[length (cells s a) - 1 := m] else cells s a)"
  by (simp add: ctx_set_last_def)

lemma continue_run:
  assumes "agentLoopContinue fuel ctx config streamFn m = Inr r"
  shows "r = runLoop fuel (agentLoop fuel) ctx config streamFn
               (push turn_start (push agent_start (createAgentStream m)))"
proof (cases "length (cells m (messages ctx)) = 0")
  case True
  with assms show ?thesis unfolding agentLoopContinue_def by simp
next
  case False
  note ne = this
  show ?thesis
  proof (cases "role (last (cells m (messages ctx))) = RoleAssistant")
    case True
    with assms ne show ?thesis unfolding agentLoopContinue_def by simp
  next
    case False
    with assms ne show ?thesis unfolding agentLoopContinue_def Let_def by simp
  qed
qed

lemma continue_frame:
  assumes "agentLoopContinue fuel ctx config streamFn m = Inr r" and "a \<noteq> messages ctx"
  shows "cells (snd r) a = cells m a"
proof -
  have "framed ctx (push turn_start (push agent_start (createAgentStream m))) (snd r)"
    unfolding continue_run [OF assms(1)] by (rule framed_runLoop)
  then have "cells (snd r) a = cells (createAgentStream m) a"
    using assms(2) unfolding framed_def by simp
  then show ?thesis unfolding createAgentStream_def by simp
qed

lemma continue_log:
  assumes "agentLoopContinue fuel ctx config streamFn m = Inr r"
    and "wellBehaved streamFn" and "fst r = Inr ()"
  shows "cells (snd r) (messages ctx) = cells m (messages ctx) @ newMessages (snd r)"
proof -
  let ?s1 = "push turn_start (push agent_start (createAgentStream m))"
  have r: "r = runLoop fuel (agentLoop fuel) ctx config streamFn ?s1"
    by (rule continue_run [OF assms(1)])
  have "r = (Inr (), snd r)" using assms(3) by (cases r) simp
  then have run: "runLoop fuel (agentLoop fuel) ctx config streamFn ?s1 = (Inr (), snd r)"
    using r by simp
  have base: "log ctx ?s1 = cells m (messages ctx) @ newMessages ?s1"
    by (simp add: log_def createAgentStream_def)
  have "log ctx (snd r) = cells m (messages ctx) @ newMessages (snd r)"
    by (rule runLoop_log [OF assms(2) base run])
  then show ?thesis by (simp add: log_def)
qed

lemma start_run:
  "\<exists>s2. agentLoop (Suc n) prompts ctx config streamFn m
           = runLoop (Suc n) (agentLoop n) (ctx\<lparr>messages := next_ref m\<rparr>) config streamFn s2 \<and>
        cells s2 = (cells m)(next_ref m := cells m (messages ctx) @ prompts) \<and>
        newMessages s2 = prompts"
proof -
  let ?s0 = "createAgentStream m
               \<lparr>cells := (cells m)(next_ref m := cells m (messages ctx) @ prompts),
                next_ref := Suc (next_ref m), newMessages := prompts\<rparr>"
  let ?s2 = "foldl (\<lambda>s prompt. push (message_end prompt) (push (message_start prompt) s))
               (push turn_start (push agent_start ?s0)) prompts"
  have "agentLoop (Suc n) prompts ctx config streamFn m
          = runLoop (Suc n) (agentLoop n) (ctx\<lparr>messages := next_ref m\<rparr>) config streamFn ?s2"
    unfolding agentLoop.simps agentLoopWith_def Let_def ..
  moreover have "cells ?s2 = (cells m)(next_ref m := cells m (messages ctx) @ prompts)"
    unfolding conjunct1 [OF prompts_pushed_cells] by simp
  moreover have "newMessages ?s2 = prompts"
    unfolding conjunct2 [OF prompts_pushed_cells] by simp
  ultimately show ?thesis by (intro exI [of _ ?s2] conjI)
qed

lemma start_frame:
  assumes "a \<noteq> next_ref m"
  shows "cells (snd (agentLoop fuel prompts ctx config streamFn m)) a = cells m a"
proof (cases fuel)
  case 0
  then show ?thesis by (simp add: createAgentStream_def)
next
  case (Suc n)
  obtain s2 where run: "agentLoop (Suc n) prompts ctx config streamFn m
           = runLoop (Suc n) (agentLoop n) (ctx\<lparr>messages := next_ref m\<rparr>) config streamFn s2"
    and c: "cells s2 = (cells m)(next_ref m := cells m (messages ctx) @ prompts)"
    using start_run by blast
  have "framed (ctx\<lparr>messages := next_ref m\<rparr>) s2
          (snd (agentLoop (Suc n) prompts ctx config streamFn m))"
    unfolding run by (rule framed_runLoop)
  then have "cells (snd (agentLoop (Suc n) prompts ctx config streamFn m)) a = cells s2 a"
    using assms unfolding framed_def by simp
  then show ?thesis using assms unfolding Suc c by simp
qed

lemma start_log:
  assumes "wellBehaved streamFn" and "fst (agentLoop fuel prompts ctx config streamFn m) = Inr ()"
  shows "cells (snd (agentLoop fuel prompts ctx config streamFn m)) (next_ref m)
           = cells m (messages ctx) @ newMessages (snd (agentLoop fuel prompts ctx config streamFn m))"
proof (cases fuel)
  case 0
  with assms(2) show ?thesis by simp
next
  case (Suc n)
  let ?r = "agentLoop (Suc n) prompts ctx config streamFn m"
  let ?c = "ctx\<lparr>messages := next_ref m\<rparr>"
  obtain s2 where run: "?r = runLoop (Suc n) (agentLoop n) ?c config streamFn s2"
    and c: "cells s2 = (cells m)(next_ref m := cells m (messages ctx) @ prompts)"
    and nm: "newMessages s2 = prompts"
    using start_run by blast
  have "fst ?r = Inr ()" using assms(2) unfolding Suc .
  then have "?r = (Inr (), snd ?r)" by (cases ?r) simp
  then have run': "runLoop (Suc n) (agentLoop n) ?c config streamFn s2 = (Inr (), snd ?r)"
    unfolding run .
  have base: "log ?c s2 = cells m (messages ctx) @ newMessages s2"
    unfolding log_def c nm by simp
  have "log ?c (snd ?r) = cells m (messages ctx) @ newMessages (snd ?r)"
    by (rule runLoop_log [OF assms(1) base run'])
  then show ?thesis unfolding Suc log_def by simp
qed

text \<open>
  C9, as stated, fails for the start entry: the messages of the run are appended to a new
  array and the array of the context the caller passed in stays as it was. Here the
  caller's array is empty before and after a run that produced two messages.
\<close>

theorem start_entry_copies_log_counterexample:
  "fst (agentLoop 1 [UserMessage ''hi''] demoContext plainConfig doneStream demoMachine) = Inr () \<and>
   newMessages (snd (agentLoop 1 [UserMessage ''hi''] demoContext plainConfig doneStream
                       demoMachine))
     = [UserMessage ''hi'', AssistantMessage doneMsg] \<and>
   cells demoMachine (messages demoContext) = [] \<and>
   cells (snd (agentLoop 1 [UserMessage ''hi''] demoContext plainConfig doneStream demoMachine))
     (messages demoContext) = []"
  by (simp add: exec_simps state_simps Let_def demo_defs plainConfig_def doneStream_def
        cells_ctx_push cells_ctx_set_last split del: if_split)

text \<open>
  C9, amended. A run started via the continue entry works on the caller's array: it
  writes to no other array, and when its task ends, with an adapter that ends every
  response with \<open>done\<close> or \<open>error\<close> after at most one \<open>start\<close>, the caller's array holds
  what it held before followed by the new messages of the run. A run started via the
  start entry writes to one array only, a new one, which then holds the caller's messages
  followed by the new messages (the prompts first); every array that existed before,
  the caller's among them, is left as it was.
\<close>

theorem message_log_ownership:
  "(agentLoopContinue fuel ctx config streamFn m = Inr r \<longrightarrow>
      (\<forall>a. a \<noteq> messages ctx \<longrightarrow> cells (snd r) a = cells m a) \<and>
      (wellBehaved streamFn \<and> fst r = Inr () \<longrightarrow>
         cells (snd r) (messages ctx) = cells m (messages ctx) @ newMessages (snd r))) \<and>
   (\<forall>a. a \<noteq> next_ref m \<longrightarrow>
      cells (snd (agentLoop fuel prompts ctx config streamFn m)) a = cells m a) \<and>
   (wellBehaved streamFn \<and> fst (agentLoop fuel prompts ctx config streamFn m) = Inr () \<longrightarrow>
      cells (snd (agentLoop fuel prompts ctx config streamFn m)) (next_ref m)
        = cells m (messages ctx) @ newMessages (snd (agentLoop fuel prompts ctx config streamFn m)))"
proof (intro conjI impI allI)
  fix a
  assume "agentLoopContinue fuel ctx config streamFn m = Inr r" and "a \<noteq> messages ctx"
  then show "cells (snd r) a = cells m a" by (rule continue_frame)
next
  assume "agentLoopContinue fuel ctx config streamFn m = Inr r"
    and "wellBehaved streamFn \<and> fst r = Inr ()"
  then show "cells (snd r) (messages ctx) = cells m (messages ctx) @ newMessages (snd r)"
    using continue_log by blast
next
  fix a
  assume "a \<noteq> next_ref m"
  then show "cells (snd (agentLoop fuel prompts ctx config streamFn m)) a = cells m a"
    by (rule start_frame)
next
  assume "wellBehaved streamFn \<and> fst (agentLoop fuel prompts ctx config streamFn m) = Inr ()"
  then show "cells (snd (agentLoop fuel prompts ctx config streamFn m)) (next_ref m)
        = cells m (messages ctx) @ newMessages (snd (agentLoop fuel prompts ctx config streamFn m))"
    using start_log by blast
qed

theorem message_log_ownership_witness:
  "wellBehaved doneStream \<and>
   \<not> isl (agentLoopContinue 1 demoContext plainConfig doneStream userMachine) \<and>
   fst (projr (agentLoopContinue 1 demoContext plainConfig doneStream userMachine)) = Inr () \<and>
   cells (snd (projr (agentLoopContinue 1 demoContext plainConfig doneStream userMachine)))
     (messages demoContext) = [UserMessage ''hi'', AssistantMessage doneMsg] \<and>
   fst (agentLoop 1 [UserMessage ''go''] demoContext plainConfig doneStream userMachine) = Inr () \<and>
   cells (snd (agentLoop 1 [UserMessage ''go''] demoContext plainConfig doneStream userMachine))
     (messages demoContext) = [UserMessage ''hi''] \<and>
   cells (snd (agentLoop 1 [UserMessage ''go''] demoContext plainConfig doneStream userMachine))
     (next_ref userMachine)
     = [UserMessage ''hi'', UserMessage ''go'', AssistantMessage doneMsg]"
proof -
  let ?k = "agentLoopContinue 1 demoContext plainConfig doneStream userMachine"
  let ?a = "agentLoop 1 [UserMessage ''go''] demoContext plainConfig doneStream userMachine"
  have wb: "wellBehaved doneStream"
    by (auto simp: wellBehaved_def doneStream_def respond_def)
  have k1: "\<not> isl ?k"
    by (simp add: agentLoopContinue_def userMachine_def demoContext_def)
  have k2: "fst (projr ?k) = Inr ()"
    by (simp add: agentLoopContinue_def exec_simps state_simps Let_def demo_defs
          plainConfig_def doneStream_def userMachine_def split del: if_split)
  have k3: "newMessages (snd (projr ?k)) = [AssistantMessage doneMsg]"
    by (simp add: agentLoopContinue_def exec_simps state_simps Let_def demo_defs
          plainConfig_def doneStream_def userMachine_def split del: if_split)
  have k': "?k = Inr (projr ?k)" using k1 by (cases ?k) simp_all
  have a1: "fst ?a = Inr ()"
    by (simp add: exec_simps state_simps Let_def demo_defs plainConfig_def doneStream_def
          userMachine_def split del: if_split)
  have a2: "newMessages (snd ?a) = [UserMessage ''go'', AssistantMessage doneMsg]"
    by (simp add: exec_simps state_simps Let_def demo_defs plainConfig_def doneStream_def
          userMachine_def split del: if_split)
  have u: "cells userMachine (messages demoContext) = [UserMessage ''hi'']"
    "messages demoContext \<noteq> next_ref userMachine"
    by (simp_all add: userMachine_def demoContext_def)
  note t = message_log_ownership [where fuel = 1 and ctx = demoContext and config = plainConfig
      and streamFn = doneStream and m = userMachine and r = "projr ?k"
      and prompts = "[UserMessage ''go'']"]
  have t1: "wellBehaved doneStream \<and> fst (projr ?k) = Inr () \<longrightarrow>
      cells (snd (projr ?k)) (messages demoContext)
        = cells userMachine (messages demoContext) @ newMessages (snd (projr ?k))"
    using t k' by blast
  have t2: "messages demoContext \<noteq> next_ref userMachine \<longrightarrow>
      cells (snd ?a) (messages demoContext) = cells userMachine (messages demoContext)"
    using t by blast
  have t3: "wellBehaved doneStream \<and> fst ?a = Inr () \<longrightarrow>
      cells (snd ?a) (next_ref userMachine)
        = cells userMachine (messages demoContext) @ newMessages (snd ?a)"
    using t by blast
  have c1: "cells (snd (projr ?k)) (messages demoContext)
              = [UserMessage ''hi'', AssistantMessage doneMsg]"
    using t1 wb k2 k3 u(1) by simp
  have c2: "cells (snd ?a) (messages demoContext) = [UserMessage ''hi'']"
    using t2 u by simp
  have c3: "cells (snd ?a) (next_ref userMachine)
              = [UserMessage ''hi'', UserMessage ''go'', AssistantMessage doneMsg]"
    using t3 wb a1 a2 u(1) by (simp del: agentLoop.simps)
  show ?thesis using wb k1 k2 c1 a1 c2 c3 by (intro conjI)
qed

end
